theory Spec2Isabelle
  imports Main "HOL-Library.Word"
begin

section \<open>Values of the JavaScript runtime\<close>

text \<open>
  A JavaScript string is a sequence of 16-bit UTF-16 code units; a Buffer is a sequence of
  bytes. Character literals of the source are written \<open>cu CHR ''x''\<close> and string literals
  \<open>js ''...''\<close>.
\<close>

type_synonym byte = "8 word"
type_synonym bytes = "byte list"
type_synonym jschar = "16 word"
type_synonym jsstring = "jschar list"

definition cu :: "char \<Rightarrow> jschar" where
  "cu c = of_char c"

definition js :: "string \<Rightarrow> jsstring" where
  "js s = map cu s"

text \<open>
  The errors the source raises: \<open>new Error(message)\<close> and \<open>TypeError\<close> (raised explicitly
  by \<open>composeSync\<close>, and by the runtime when a property of \<open>undefined\<close> is read).
\<close>

datatype js_error = Error string | TypeError string

section \<open>rfc3986-regexp.js\<close>

text \<open>A character range \<open>lo-hi\<close> of a regular-expression character class.\<close>

definition in_range :: "char \<Rightarrow> char \<Rightarrow> jschar \<Rightarrow> bool" where
  "in_range lo hi c = (cu lo \<le> c \<and> c \<le> cu hi)"

text \<open>The class \<^verbatim>\<open>[A-Za-z0-9\-\._~]\<close> of \<open>unreserved\<close>.\<close>

definition unreserved_char :: "jschar \<Rightarrow> bool" where
  "unreserved_char c =
     (in_range CHR ''A'' CHR ''Z'' c \<or> in_range CHR ''a'' CHR ''z'' c \<or>
      in_range CHR ''0'' CHR ''9'' c \<or>
      c = cu CHR ''-'' \<or> c = cu CHR ''.'' \<or> c = cu CHR ''_'' \<or> c = cu CHR ''~'')"

text \<open>The class \<^verbatim>\<open>[A-Fa-f0-9]\<close> used by \<open>escaped\<close>.\<close>

definition hex_char :: "jschar \<Rightarrow> bool" where
  "hex_char c =
     (in_range CHR ''A'' CHR ''F'' c \<or> in_range CHR ''a'' CHR ''f'' c \<or>
      in_range CHR ''0'' CHR ''9'' c)"

text \<open>
  \<^verbatim>\<open>/%[A-Fa-f0-9]{2}/\<close> matched at the start of a string (\<open>escaped_at\<close>), and searched
  anywhere in it as \<open>part.match(escaped)\<close> does (\<open>escaped\<close>).
\<close>

fun escaped_at :: "jsstring \<Rightarrow> bool" where
  "escaped_at (c # h1 # h2 # rest) = (c = cu CHR ''%'' \<and> hex_char h1 \<and> hex_char h2)"
| "escaped_at _ = False"

fun escaped :: "jsstring \<Rightarrow> bool" where
  "escaped [] = False"
| "escaped (c # cs) = (escaped_at (c # cs) \<or> escaped cs)"

text \<open>\<open>string.match(unreserved)\<close>: some character of the string is in the class.\<close>

definition unreserved :: "jsstring \<Rightarrow> bool" where
  "unreserved s = list_ex unreserved_char s"

section \<open>The Buffer operations the source calls\<close>

text \<open>
  \<open>Buffer.from(s, "ascii")\<close> keeps the low byte of every code unit.
\<close>

definition Buffer_from_ascii :: "jsstring \<Rightarrow> bytes" where
  "Buffer_from_ascii s = map ucast s"

text \<open>
  \<open>Buffer.from(s, "hex")\<close> decodes pairs of hexadecimal digits and stops at the first
  pair that is not one; a trailing single character is dropped.
\<close>

definition hex_value :: "jschar \<Rightarrow> nat" where
  "hex_value c =
     (if in_range CHR ''0'' CHR ''9'' c then unat c - 48
      else if in_range CHR ''A'' CHR ''F'' c then unat c - 55
      else unat c - 87)"

fun Buffer_from_hex :: "jsstring \<Rightarrow> bytes" where
  "Buffer_from_hex (h1 # h2 # rest) =
     (if hex_char h1 \<and> hex_char h2
      then of_nat (16 * hex_value h1 + hex_value h2) # Buffer_from_hex rest
      else [])"
| "Buffer_from_hex _ = []"

text \<open>
  \<open>Buffer.from(s)\<close> on a string encodes it as UTF-8. A surrogate pair is one code point of
  four bytes; a surrogate that is not part of a pair is written as U+FFFD.
\<close>

definition high_surrogate :: "jschar \<Rightarrow> bool" where
  "high_surrogate u = (0xD800 \<le> u \<and> u \<le> 0xDBFF)"

definition low_surrogate :: "jschar \<Rightarrow> bool" where
  "low_surrogate u = (0xDC00 \<le> u \<and> u \<le> 0xDFFF)"

definition utf8_of_code_point :: "nat \<Rightarrow> bytes" where
  "utf8_of_code_point cp =
     (if cp < 0x80 then [of_nat cp]
      else if cp < 0x800 then [of_nat (0xC0 + cp div 64), of_nat (0x80 + cp mod 64)]
      else if cp < 0x10000 then
        [of_nat (0xE0 + cp div 4096), of_nat (0x80 + cp div 64 mod 64), of_nat (0x80 + cp mod 64)]
      else
        [of_nat (0xF0 + cp div 262144), of_nat (0x80 + cp div 4096 mod 64),
         of_nat (0x80 + cp div 64 mod 64), of_nat (0x80 + cp mod 64)])"

definition utf8_of_unit :: "jschar \<Rightarrow> bytes" where
  "utf8_of_unit u =
     (if high_surrogate u \<or> low_surrogate u then [0xEF, 0xBF, 0xBD]
      else utf8_of_code_point (unat u))"

fun utf8_encode :: "jsstring \<Rightarrow> bytes" where
  "utf8_encode (u # v # rest) =
     (if high_surrogate u \<and> low_surrogate v
      then utf8_of_code_point (0x10000 + (unat u - 0xD800) * 0x400 + (unat v - 0xDC00))
             @ utf8_encode rest
      else utf8_of_unit u @ utf8_encode (v # rest))"
| "utf8_encode [u] = utf8_of_unit u"
| "utf8_encode [] = []"

text \<open>The argument of \<open>pct_encode\<close> and \<open>base64_encode\<close> is a string or a Buffer.\<close>

datatype jsarg = Str jsstring | Buf bytes

fun Buffer_from :: "jsarg \<Rightarrow> bytes" where
  "Buffer_from (Str s) = utf8_encode s"
| "Buffer_from (Buf b) = b"

text \<open>
  \<open>buffer.toString()\<close> decodes UTF-8. A well-formed sequence gives its code point, as one
  code unit or as a surrogate pair; a byte that cannot start a sequence, and the longest
  prefix of a sequence that its next byte does not continue, give one U+FFFD each, and
  decoding resumes at the byte that did not fit.
\<close>

definition continuation :: "byte \<Rightarrow> bool" where
  "continuation b = (0x80 \<le> b \<and> b \<le> 0xBF)"

text \<open>The second byte after a three- or four-byte lead: no overlong form, no surrogate,
  nothing above U+10FFFF.\<close>

definition second_byte :: "byte \<Rightarrow> byte \<Rightarrow> bool" where
  "second_byte lead b =
     ((if lead = 0xE0 then 0xA0 else if lead = 0xF0 then 0x90 else 0x80) \<le> b \<and>
      b \<le> (if lead = 0xED then 0x9F else if lead = 0xF4 then 0x8F else 0xBF))"

definition units_of_code_point :: "nat \<Rightarrow> jsstring" where
  "units_of_code_point cp =
     (if cp < 0x10000 then [of_nat cp]
      else [of_nat (0xD800 + (cp - 0x10000) div 0x400),
            of_nat (0xDC00 + (cp - 0x10000) mod 0x400)])"

definition replacement :: jschar where
  "replacement = 0xFFFD"

fun utf8_decode :: "bytes \<Rightarrow> jsstring" where
  "utf8_decode [] = []"
| "utf8_decode (b # bs) =
     (if b < 0x80 then ucast b # utf8_decode bs
      else if 0xC2 \<le> b \<and> b \<le> 0xDF then
        (case bs of
           [] \<Rightarrow> [replacement]
         | c # cs \<Rightarrow>
             if continuation c
             then units_of_code_point ((unat b - 0xC0) * 64 + (unat c - 0x80)) @ utf8_decode cs
             else replacement # utf8_decode bs)
      else if 0xE0 \<le> b \<and> b \<le> 0xEF then
        (case bs of
           [] \<Rightarrow> [replacement]
         | c # cs \<Rightarrow>
             if second_byte b c then
               (case cs of
                  [] \<Rightarrow> [replacement]
                | d # ds \<Rightarrow>
                    if continuation d
                    then units_of_code_point
                           ((unat b - 0xE0) * 4096 + (unat c - 0x80) * 64 + (unat d - 0x80))
                         @ utf8_decode ds
                    else replacement # utf8_decode cs)
             else replacement # utf8_decode bs)
      else if 0xF0 \<le> b \<and> b \<le> 0xF4 then
        (case bs of
           [] \<Rightarrow> [replacement]
         | c # cs \<Rightarrow>
             if second_byte b c then
               (case cs of
                  [] \<Rightarrow> [replacement]
                | d # ds \<Rightarrow>
                    if continuation d then
                      (case ds of
                         [] \<Rightarrow> [replacement]
                       | e # es \<Rightarrow>
                           if continuation e
                           then units_of_code_point
                                  ((unat b - 0xF0) * 262144 + (unat c - 0x80) * 4096
                                   + (unat d - 0x80) * 64 + (unat e - 0x80))
                                @ utf8_decode es
                           else replacement # utf8_decode ds)
                    else replacement # utf8_decode cs)
             else replacement # utf8_decode bs)
      else replacement # utf8_decode bs)"

definition Buffer_toString :: "bytes \<Rightarrow> jsstring" where
  "Buffer_toString b = utf8_decode b"

text \<open>
  \<open>buffer.toString("base64")\<close>: the standard alphabet, three bytes to four characters,
  \<open>=\<close> padding.
\<close>

definition base64_digit :: "nat \<Rightarrow> jschar" where
  "base64_digit n =
     (if n < 26 then of_nat (65 + n)
      else if n < 52 then of_nat (71 + n)
      else if n < 62 then of_nat (n - 4)
      else if n = 62 then cu CHR ''+'' else cu CHR ''/'')"

fun Buffer_toString_base64 :: "bytes \<Rightarrow> jsstring" where
  "Buffer_toString_base64 (a # b # c # rest) =
     [base64_digit (unat a div 4), base64_digit (unat a mod 4 * 16 + unat b div 16),
      base64_digit (unat b mod 16 * 4 + unat c div 64), base64_digit (unat c mod 64)]
     @ Buffer_toString_base64 rest"
| "Buffer_toString_base64 [a, b] =
     [base64_digit (unat a div 4), base64_digit (unat a mod 4 * 16 + unat b div 16),
      base64_digit (unat b mod 16 * 4), cu CHR ''='']"
| "Buffer_toString_base64 [a] =
     [base64_digit (unat a div 4), base64_digit (unat a mod 4 * 16), cu CHR ''='', cu CHR ''='']"
| "Buffer_toString_base64 [] = []"

text \<open>
  \<open>Buffer.from(s, "base64")\<close> never fails: it reads the characters of the standard and of
  the URL-safe alphabet up to the first \<open>=\<close>, skips every other character, and turns each
  four six-bit values into three bytes; two or three left-over values give one or two bytes.
\<close>

definition base64_value :: "jschar \<Rightarrow> nat option" where
  "base64_value c =
     (if in_range CHR ''A'' CHR ''Z'' c then Some (unat c - 65)
      else if in_range CHR ''a'' CHR ''z'' c then Some (unat c - 71)
      else if in_range CHR ''0'' CHR ''9'' c then Some (unat c + 4)
      else if c = cu CHR ''+'' \<or> c = cu CHR ''-'' then Some 62
      else if c = cu CHR ''/'' \<or> c = cu CHR ''_'' then Some 63
      else None)"

fun bytes_of_sextets :: "nat list \<Rightarrow> bytes" where
  "bytes_of_sextets (p # q # r # s # rest) =
     [of_nat (p * 4 + q div 16), of_nat (q mod 16 * 16 + r div 4), of_nat (r mod 4 * 64 + s)]
     @ bytes_of_sextets rest"
| "bytes_of_sextets [p, q, r] = [of_nat (p * 4 + q div 16), of_nat (q mod 16 * 16 + r div 4)]"
| "bytes_of_sextets [p, q] = [of_nat (p * 4 + q div 16)]"
| "bytes_of_sextets _ = []"

definition sextets :: "jsstring \<Rightarrow> nat list" where
  "sextets s = List.map_filter base64_value (takeWhile (\<lambda>c. c \<noteq> cu CHR ''='') s)"

definition Buffer_from_base64 :: "jsstring \<Rightarrow> bytes" where
  "Buffer_from_base64 s = bytes_of_sextets (sextets s)"

text \<open>A payload field holds any value; \<open>Buffer.isBuffer\<close> tells the Buffers apart.\<close>

datatype jsvalue = Buffer bytes | StringValue jsstring | Undefined

fun isBuffer :: "jsvalue \<Rightarrow> bool" where
  "isBuffer (Buffer b) = True"
| "isBuffer _ = False"

section \<open>Strings, arrays and objects\<close>

text \<open>
  \<open>s.split(sep)\<close> for a one-character separator: the pieces between the separators, at
  least one. The second argument is the piece collected since the last separator.
\<close>

fun split_char :: "jschar \<Rightarrow> jsstring \<Rightarrow> jsstring \<Rightarrow> jsstring list" where
  "split_char sep piece [] = [piece]"
| "split_char sep piece (c # cs) =
     (if c = sep then piece # split_char sep [] cs else split_char sep (piece @ [c]) cs)"

definition split :: "jsstring \<Rightarrow> char \<Rightarrow> jsstring list" where
  "split s sep = split_char (cu sep) [] s"

text \<open>\<open>array.join(sep)\<close>.\<close>

fun join :: "jsstring list \<Rightarrow> jsstring \<Rightarrow> jsstring" where
  "join [] sep = []"
| "join [x] sep = x"
| "join (x # y # ys) sep = x @ sep @ join (y # ys) sep"

text \<open>
  A parameter object is the list of its own properties in the order \<open>Object.keys\<close> gives
  them. It is created as \<open>{}\<close>, so \<open>key in object\<close> also holds for the property names it
  inherits from \<open>Object.prototype\<close>. A new property is put at the end of the list (the
  runtime enumerates integer-like names first; the results below compare objects as
  mappings, so the order of an object built by \<open>parseSync\<close> does not matter).
\<close>

type_synonym parameters = "(jsstring \<times> jsstring) list"

definition Object_prototype_keys :: "jsstring list" where
  "Object_prototype_keys =
     map js [''constructor'', ''__defineGetter__'', ''__defineSetter__'', ''hasOwnProperty'',
             ''__lookupGetter__'', ''__lookupSetter__'', ''isPrototypeOf'',
             ''propertyIsEnumerable'', ''toString'', ''valueOf'', ''__proto__'',
             ''toLocaleString'']"

definition has_property :: "jsstring \<Rightarrow> parameters \<Rightarrow> bool" where
  "has_property key obj = (key \<in> set (map fst obj) \<or> key \<in> set Object_prototype_keys)"

text \<open>\<open>object[key] = value\<close>: replaces the value of an own property, or adds the property.\<close>

fun set_property :: "parameters \<Rightarrow> jsstring \<Rightarrow> jsstring \<Rightarrow> parameters" where
  "set_property [] key val = [(key, val)]"
| "set_property ((k, v) # obj) key val =
     (if k = key then (k, val) # obj else (k, v) # set_property obj key val)"

section \<open>index.js: percent-encoding\<close>

text \<open>
  \<open>correctly_encoded\<close> of \<open>pct_decode\<close>: the whole string matches
  \<^verbatim>\<open>^(?:[A-Za-z0-9\-\._~]|%[A-Fa-f0-9]{2})*$\<close>. An unreserved character never is
  \<open>%\<close>, so the alternatives exclude each other and the match is a left-to-right scan.
\<close>

fun pct_correctly_encoded :: "jsstring \<Rightarrow> bool" where
  "pct_correctly_encoded [] = True"
| "pct_correctly_encoded (c # cs) =
     (if unreserved_char c then pct_correctly_encoded cs
      else if escaped_at (c # cs) then pct_correctly_encoded (drop 2 cs)
      else False)"

text \<open>
  \<open>urlencoded.split(splitter)\<close> with \<open>splitter = /(%[A-Fa-f0-9]{2})/\<close>: the pieces between
  the matches and, as the pattern is a capture group, the matches themselves, in order.
  The first argument is the piece collected since the last match.
\<close>

fun split_escaped :: "jsstring \<Rightarrow> jsstring \<Rightarrow> jsstring list" where
  "split_escaped piece [] = [piece]"
| "split_escaped piece (c # cs) =
     (if escaped_at (c # cs)
      then piece # take 3 (c # cs) # split_escaped [] (drop 2 cs)
      else split_escaped (piece @ [c]) cs)"

text \<open>The function mapped over the pieces; \<open>part.slice(1)\<close> removes the leading \<open>%\<close>.\<close>

definition pct_decode_part :: "jsstring \<Rightarrow> bytes" where
  "pct_decode_part part =
     (if escaped part then Buffer_from_hex (drop 1 part) else Buffer_from_ascii part)"

definition pct_decode :: "jsstring \<Rightarrow> js_error + bytes" where
  "pct_decode urlencoded =
     (if \<not> pct_correctly_encoded urlencoded then Inl (Error ''malformed data'')
      else
        let buffers = map pct_decode_part (split_escaped [] urlencoded)
        in Inr (concat buffers))"

text \<open>\<open>byte.toString(16)\<close>: lower-case hexadecimal digits without a leading zero.\<close>

definition hex_digit :: "nat \<Rightarrow> jschar" where
  "hex_digit n = (if n < 10 then of_nat (48 + n) else of_nat (87 + n))"

definition toString16 :: "byte \<Rightarrow> jsstring" where
  "toString16 b =
     (if unat b < 16 then [hex_digit (unat b)]
      else [hex_digit (unat b div 16), hex_digit (unat b mod 16)])"

definition pct_encode_byte :: "jsstring \<Rightarrow> byte \<Rightarrow> jsstring" where
  "pct_encode_byte str b =
     (let char = [ucast b] in
      if unreserved char then str @ char
      else
        let hex = toString16 b;
            hex = (if length hex = 1 then js ''0'' @ hex else hex)
        in str @ js ''%'' @ hex)"

definition pct_encode :: "jsarg \<Rightarrow> jsstring" where
  "pct_encode arg = foldl pct_encode_byte [] (Buffer_from arg)"

section \<open>index.js: base64\<close>

text \<open>The class \<^verbatim>\<open>[A-Za-z0-9+\/]\<close>.\<close>

definition base64_char :: "jschar \<Rightarrow> bool" where
  "base64_char c =
     (in_range CHR ''A'' CHR ''Z'' c \<or> in_range CHR ''a'' CHR ''z'' c \<or>
      in_range CHR ''0'' CHR ''9'' c \<or> c = cu CHR ''+'' \<or> c = cu CHR ''/'')"

text \<open>
  \<open>correctly_encoded\<close> of \<open>base64_decode\<close>: the whole string matches
  \<^verbatim>\<open>^[A-Za-z0-9+\/]*=?=?$\<close>. The class does not hold \<open>=\<close>, so what follows the
  longest run of class characters must be nothing, \<open>=\<close> or \<open>==\<close>.
\<close>

definition base64_correctly_encoded :: "jsstring \<Rightarrow> bool" where
  "base64_correctly_encoded s =
     (let rest = dropWhile base64_char s
      in rest = [] \<or> rest = js ''='' \<or> rest = js ''=='')"

definition base64_decode :: "jsstring \<Rightarrow> js_error + bytes" where
  "base64_decode base64encoded =
     (if length base64encoded mod 4 \<noteq> 0 \<or> \<not> base64_correctly_encoded base64encoded
      then Inl (Error ''malformed data'')
      else Inr (Buffer_from_base64 base64encoded))"

definition base64_encode :: "jsarg \<Rightarrow> jsstring" where
  "base64_encode arg = (let buff = Buffer_from arg in Buffer_toString_base64 buff)"

section \<open>index.js: parseSync\<close>

text \<open>
  The \<open>Info\<close> object. \<open>parseSync\<close> sets \<open>base64\<close> only when it is true, so the field is
  \<open>None\<close> when absent; \<open>mime\<close> is a string or \<open>undefined\<close>.
\<close>

record Info =
  base64 :: "bool option"
  mime :: "jsstring option"
  parameters :: parameters
  data :: jsvalue

text \<open>A condition \<open>if (info.base64)\<close> holds for \<open>true\<close> only.\<close>

definition truthy :: "bool option \<Rightarrow> bool" where
  "truthy b = (b = Some True)"

text \<open>
  \<open>dataurl.match(/^data:(.*?),(.*)$/)\<close>. The dot matches every character except the line
  terminators, so a match needs the prefix \<open>data:\<close>, no line terminator after it and a
  comma; the lazy first group ends at the first comma.
\<close>

definition line_terminator :: "jschar \<Rightarrow> bool" where
  "line_terminator c = (c = 0x0A \<or> c = 0x0D \<or> c = 0x2028 \<or> c = 0x2029)"

definition dataurl_match :: "jsstring \<Rightarrow> (jsstring \<times> jsstring) option" where
  "dataurl_match dataurl =
     (let rest = drop 5 dataurl in
      if take 5 dataurl = js ''data:'' \<and> cu CHR '','' \<in> set rest \<and> \<not> list_ex line_terminator rest
      then Some (takeWhile (\<lambda>c. c \<noteq> cu CHR '','') rest,
                 drop 1 (dropWhile (\<lambda>c. c \<noteq> cu CHR '','') rest))
      else None)"

text \<open>Lines 111 to 114: a last element \<open>base64\<close> sets the flag and is popped.\<close>

definition pop_base64 :: "jsstring list \<Rightarrow> bool option \<times> jsstring list" where
  "pop_base64 mediatype =
     (if mediatype \<noteq> [] \<and> last mediatype = js ''base64'' then (Some True, butlast mediatype)
      else (None, mediatype))"

text \<open>\<open>mediatype.shift()\<close>: the first element, \<open>undefined\<close> for an empty array, and the rest.\<close>

definition shift :: "jsstring list \<Rightarrow> jsstring option \<times> jsstring list" where
  "shift mediatype = (case mediatype of [] \<Rightarrow> (None, []) | m # rest \<Rightarrow> (Some m, rest))"

text \<open>The function given to \<open>mediatype.reduce\<close>, lines 118 to 134.\<close>

definition reduce_parameter :: "parameters \<Rightarrow> jsstring \<Rightarrow> js_error + parameters" where
  "reduce_parameter params parameter =
     (let splitted = split parameter CHR ''='' in
      if length splitted \<noteq> 2 then Inl (Error ''invalid dataurl parameter'')
      else
        case pct_decode (splitted ! 0) of
          Inl e \<Rightarrow> Inl e
        | Inr a \<Rightarrow>
            (case pct_decode (splitted ! 1) of
               Inl e \<Rightarrow> Inl e
             | Inr v \<Rightarrow>
                 let attribute = Buffer_toString a;
                     val = Buffer_toString v
                 in Inr (if \<not> has_property attribute params
                         then set_property params attribute val else params)))"

text \<open>\<open>mediatype.reduce(f, {})\<close>; an exception of \<open>f\<close> ends it.\<close>

fun reduce :: "jsstring list \<Rightarrow> parameters \<Rightarrow> js_error + parameters" where
  "reduce [] params = Inr params"
| "reduce (parameter # rest) params =
     (case reduce_parameter params parameter of
        Inl e \<Rightarrow> Inl e
      | Inr params' \<Rightarrow> reduce rest params')"

text \<open>Lines 136 to 146: the defaults of an omitted media type.\<close>

definition default_mediatype :: "jsstring \<Rightarrow> parameters \<Rightarrow> jsstring \<times> parameters" where
  "default_mediatype mime_token params =
     (let mime_omitted = (length mime_token = 0) in
      if mime_omitted \<and> length (map fst params) = 0
      then (js ''text/plain'', set_property params (js ''charset'') (js ''US-ASCII''))
      else if mime_omitted \<and> has_property (js ''charset'') params
      then (js ''text/plain'', params)
      else (mime_token, params))"

text \<open>
  What lines 101 to 116 extract from the input: the flag, the mime token, the parameter
  tokens and the payload text, before any of them is decoded.
\<close>

definition mediatype_tokens ::
  "jsstring \<Rightarrow> (bool option \<times> jsstring option \<times> jsstring list \<times> jsstring) option" where
  "mediatype_tokens dataurl =
     (case dataurl_match dataurl of
        None \<Rightarrow> None
      | Some (group1, group2) \<Rightarrow>
          let mediatype = split group1 CHR '';'';
              (flag, mediatype) = pop_base64 mediatype;
              (mime_token, mediatype) = shift mediatype
          in Some (flag, mime_token, mediatype, group2))"

definition parseSync :: "jsstring \<Rightarrow> js_error + Info" where
  "parseSync dataurl =
     (case mediatype_tokens dataurl of
        None \<Rightarrow> Inl (Error ''malformed dataurl'')
      | Some (flag, mime_token, mediatype, payload) \<Rightarrow>
          (case reduce mediatype [] of
             Inl e \<Rightarrow> Inl e
           | Inr params \<Rightarrow>
               (case mime_token of
                  None \<Rightarrow> Inl (TypeError ''Cannot read properties of undefined (reading length)'')
                | Some m \<Rightarrow>
                    (let (m', params') = default_mediatype m params in
                     (case (if truthy flag then base64_decode else pct_decode) payload of
                        Inl e \<Rightarrow> Inl e
                      | Inr d \<Rightarrow>
                          Inr \<lparr>base64 = flag, mime = Some m', parameters = params',
                               data = Buffer d\<rparr>)))))"

section \<open>index.js: composeSync\<close>

text \<open>One element of \<open>mediatype\<close> for a parameter: \<open>attribute + "=" + value\<close>.\<close>

definition compose_parameter :: "jsstring \<times> jsstring \<Rightarrow> jsstring" where
  "compose_parameter kv =
     (let attribute = pct_encode (Str (fst kv));
          val = pct_encode (Str (snd kv))
      in attribute @ js ''='' @ val)"

definition composeSync :: "Info \<Rightarrow> js_error + jsstring" where
  "composeSync info =
     (case data info of
        Buffer payload \<Rightarrow>
          let mediatype = [case mime info of None \<Rightarrow> [] | Some m \<Rightarrow> m];
              mediatype = mediatype @ map compose_parameter (parameters info);
              (base64_suffix, encode) =
                 (if truthy (base64 info) then (js '';base64'', base64_encode)
                  else ([], pct_encode));
              encoded = encode (Buf payload)
          in Inr (js ''data:'' @ join mediatype (js '';'') @ base64_suffix @ js '','' @ encoded)
      | _ \<Rightarrow> Inl (TypeError ''expected info.data to be a Buffer''))"

section \<open>Auxiliary definitions for the proofs\<close>

text \<open>The text \<open>pct_encode\<close> appends for one byte.\<close>

definition pct_of_byte :: "byte \<Rightarrow> jsstring" where
  "pct_of_byte b =
     (if unreserved_char (ucast b) then [ucast b]
      else [cu CHR ''%'', hex_digit (unat b div 16), hex_digit (unat b mod 16)])"

text \<open>What the function given to \<open>reduce\<close> does with a decoded attribute and value.\<close>

definition add_parameter :: "parameters \<Rightarrow> jsstring \<times> jsstring \<Rightarrow> parameters" where
  "add_parameter params kv =
     (if has_property (fst kv) params then params else set_property params (fst kv) (snd kv))"

section \<open>The patterns and decodings of the specification\<close>

text \<open>
  The base64 pattern in the specification's words: characters of the standard alphabet,
  then at most two \<open>=\<close>, and no \<open>=\<close> anywhere else.
\<close>

definition base64_pattern :: "jsstring \<Rightarrow> bool" where
  "base64_pattern s =
     (\<exists>n \<in> {0, 1, 2}. n \<le> length s \<and> list_all base64_char (take (length s - n) s) \<and>
        drop (length s - n) s = replicate n (cu CHR ''=''))"

text \<open>
  The percent pattern in the specification's words: the string is a sequence of items, each
  an unreserved character or a triplet \<open>%XX\<close> of two hexadecimal digits. An unreserved
  character stands for the byte of its ASCII code, a triplet for the byte of value \<open>XX\<close>.
\<close>

definition pct_item :: "jsstring \<Rightarrow> bool" where
  "pct_item item =
     (case item of
        [c] \<Rightarrow> unreserved_char c
      | [p, h1, h2] \<Rightarrow> p = cu CHR ''%'' \<and> hex_char h1 \<and> hex_char h2
      | _ \<Rightarrow> False)"

definition pct_item_byte :: "jsstring \<Rightarrow> byte" where
  "pct_item_byte item =
     (case item of
        [p, h1, h2] \<Rightarrow> of_nat (16 * hex_value h1 + hex_value h2)
      | _ \<Rightarrow> of_nat (unat (hd item)))"

text \<open>
  A string is well-formed UTF-16 when every surrogate code unit is half of a pair: a high
  surrogate followed by a low one.
\<close>

fun well_formed :: "jsstring \<Rightarrow> bool" where
  "well_formed (u # v # rest) =
     (if high_surrogate u then low_surrogate v \<and> well_formed rest
      else \<not> low_surrogate u \<and> well_formed (v # rest))"
| "well_formed [u] = (\<not> high_surrogate u \<and> \<not> low_surrogate u)"
| "well_formed [] = True"

text \<open>
  The attribute and the value of a parameter token in the specification's words: the text
  before and the text after its \<open>=\<close>, each percent-decoded on its own and read as text.
  There is none when the token does not contain exactly one \<open>=\<close> or a part is not valid
  percent-encoded text.
\<close>

definition attribute_text :: "jsstring \<Rightarrow> jsstring" where
  "attribute_text token = takeWhile (\<lambda>c. c \<noteq> cu CHR ''='') token"

definition value_text :: "jsstring \<Rightarrow> jsstring" where
  "value_text token = drop 1 (dropWhile (\<lambda>c. c \<noteq> cu CHR ''='') token)"

definition decoded_parameter :: "jsstring \<Rightarrow> (jsstring \<times> jsstring) option" where
  "decoded_parameter token =
     (if count_list token (cu CHR ''='') \<noteq> 1 then None
      else
        case (pct_decode (attribute_text token), pct_decode (value_text token)) of
          (Inr a, Inr v) \<Rightarrow> Some (Buffer_toString a, Buffer_toString v)
        | _ \<Rightarrow> None)"

section \<open>Characters, digits and bytes\<close>

lemma unat_of_nat16: "k < 65536 \<Longrightarrow> unat (of_nat k :: jschar) = k"
  by (simp add: unat_of_nat)

lemma unat_byte_less: "unat (b::byte) < 256"
  using unsigned_less [of b] by simp

lemma unat_cu: "unat (cu c) = of_char c"
  by (cases c) (simp add: cu_def)

lemma in_range_unat: "in_range lo hi c = (of_char lo \<le> unat c \<and> unat c \<le> of_char hi)"
  by (simp add: in_range_def word_le_nat_alt unat_cu)

lemma cu_eq_unat: "(c = cu d) = (unat c = of_char d)"
  by (metis unat_cu word_unat_eq_iff)

lemma ucast_byte_roundtrip: "ucast (ucast (b::byte) :: jschar) = b"
  by (simp add: ucast_up_ucast_id is_up)

lemma unat_hex_digit: "n < 16 \<Longrightarrow> unat (hex_digit n) = (if n < 10 then 48 + n else 87 + n)"
  unfolding hex_digit_def by (simp only: unat_of_nat16 split: if_split) auto

lemma hex_char_hex_digit: "n < 16 \<Longrightarrow> hex_char (hex_digit n)"
  by (simp add: hex_char_def in_range_unat unat_hex_digit)

lemma hex_value_hex_digit: "n < 16 \<Longrightarrow> hex_value (hex_digit n) = n"
  by (simp add: hex_value_def in_range_unat unat_hex_digit)

lemma unreserved_char_not_percent: "unreserved_char c \<Longrightarrow> c \<noteq> cu CHR ''%''"
  by (auto simp add: unreserved_char_def in_range_unat cu_eq_unat)

lemma byte_of_nibbles: "(of_nat (16 * (unat b div 16) + unat b mod 16) :: byte) = b"
  by (simp only: mult_div_mod_eq of_nat_unat ucast_id)

section \<open>Percent-encoding: what the encoder writes\<close>

lemma pct_encode_byte_eq: "pct_encode_byte str b = str @ pct_of_byte b"
proof -
  have zero: "hex_digit 0 = cu CHR ''0''"
    by (simp add: hex_digit_def cu_def)
  show ?thesis
    by (simp add: pct_encode_byte_def pct_of_byte_def unreserved_def toString16_def js_def
        Let_def zero)
qed

lemma foldl_pct_encode_byte: "foldl pct_encode_byte str bs = str @ concat (map pct_of_byte bs)"
  by (induction bs arbitrary: str) (simp_all add: pct_encode_byte_eq)

lemma pct_encode_concat: "pct_encode arg = concat (map pct_of_byte (Buffer_from arg))"
  by (simp add: pct_encode_def foldl_pct_encode_byte)

lemma pct_correctly_encoded_pct_of_byte:
  "pct_correctly_encoded (pct_of_byte b @ rest) = pct_correctly_encoded rest"
proof (cases "unreserved_char (ucast b)")
  case True
  then show ?thesis by (simp add: pct_of_byte_def)
next
  case False
  have "unat b < 256" by (rule unat_byte_less)
  then have "hex_char (hex_digit (unat b div 16))" "hex_char (hex_digit (unat b mod 16))"
    by (simp_all add: hex_char_hex_digit)
  moreover have "\<not> unreserved_char (cu CHR ''%'')"
    using unreserved_char_not_percent by blast
  ultimately show ?thesis using False by (simp add: pct_of_byte_def)
qed

lemma pct_correctly_encoded_concat:
  "pct_correctly_encoded (concat (map pct_of_byte bs))"
  by (induction bs) (simp_all add: pct_correctly_encoded_pct_of_byte)

section \<open>Percent-encoding: splitting and decoding\<close>

lemma not_escaped_at_unreserved: "unreserved_char c \<Longrightarrow> \<not> escaped_at (c # rest)"
  by (cases "c # rest" rule: escaped_at.cases) (auto dest: unreserved_char_not_percent)

lemma not_escaped_unreserved: "list_all unreserved_char piece \<Longrightarrow> \<not> escaped piece"
  by (induction piece) (simp_all add: not_escaped_at_unreserved del: escaped_at.simps)

lemma split_escaped_unreserved:
  "unreserved_char c \<Longrightarrow> split_escaped piece (c # rest) = split_escaped (piece @ [c]) rest"
  by (simp add: not_escaped_at_unreserved del: escaped_at.simps)

lemma split_escaped_escape:
  "hex_char h1 \<Longrightarrow> hex_char h2 \<Longrightarrow>
   split_escaped piece (cu CHR ''%'' # h1 # h2 # rest)
     = piece # [cu CHR ''%'', h1, h2] # split_escaped [] rest"
  by simp

lemma pct_decode_part_unreserved:
  "list_all unreserved_char piece \<Longrightarrow> pct_decode_part piece = Buffer_from_ascii piece"
  by (simp add: pct_decode_part_def not_escaped_unreserved)

lemma pct_decode_part_escape:
  "hex_char h1 \<Longrightarrow> hex_char h2 \<Longrightarrow>
   pct_decode_part [cu CHR ''%'', h1, h2] = [of_nat (16 * hex_value h1 + hex_value h2)]"
  by (simp add: pct_decode_part_def)

lemma split_decode_pct_of_bytes:
  "list_all unreserved_char piece \<Longrightarrow>
   concat (map pct_decode_part (split_escaped piece (concat (map pct_of_byte bs))))
     = Buffer_from_ascii piece @ bs"
proof (induction bs arbitrary: piece)
  case Nil
  then show ?case by (simp add: pct_decode_part_unreserved)
next
  case (Cons b bs)
  let ?rest = "concat (map pct_of_byte bs)"
  show ?case
  proof (cases "unreserved_char (ucast b)")
    case True
    then have "list_all unreserved_char (piece @ [ucast b])"
      using Cons.prems by simp
    from Cons.IH [OF this]
    have "concat (map pct_decode_part (split_escaped (piece @ [ucast b]) ?rest))
            = Buffer_from_ascii piece @ b # bs"
      by (simp add: Buffer_from_ascii_def ucast_byte_roundtrip)
    moreover have "pct_of_byte b = [ucast b]"
      using True by (simp add: pct_of_byte_def)
    ultimately show ?thesis
      using True by (simp add: split_escaped_unreserved del: split_escaped.simps)
  next
    case False
    have lt: "unat b div 16 < 16" "unat b mod 16 < 16"
      using unat_byte_less [of b] by simp_all
    have "list_all unreserved_char []" by simp
    from Cons.IH [OF this]
    have "concat (map pct_decode_part (split_escaped [] ?rest)) = bs"
      by (simp add: Buffer_from_ascii_def)
    moreover have "pct_of_byte b
        = [cu CHR ''%'', hex_digit (unat b div 16), hex_digit (unat b mod 16)]"
      using False by (simp add: pct_of_byte_def)
    ultimately show ?thesis
      using lt Cons.prems
      by (simp add: split_escaped_escape hex_char_hex_digit pct_decode_part_escape
          pct_decode_part_unreserved hex_value_hex_digit byte_of_nibbles
          del: split_escaped.simps)
  qed
qed

lemma pct_decode_pct_of_bytes: "pct_decode (concat (map pct_of_byte bs)) = Inr bs"
  using split_decode_pct_of_bytes [of "[]" bs]
  by (simp add: pct_decode_def pct_correctly_encoded_concat Buffer_from_ascii_def)

lemma pct_decode_pct_encode: "pct_decode (pct_encode arg) = Inr (Buffer_from arg)"
  by (simp add: pct_encode_concat pct_decode_pct_of_bytes)

section \<open>Base64: the encoder's text and its decoding\<close>

lemma unat_base64_digit:
  "n < 64 \<Longrightarrow> unat (base64_digit n) =
     (if n < 26 then 65 + n else if n < 52 then 71 + n else if n < 62 then n - 4
      else if n = 62 then 43 else 47)"
  unfolding base64_digit_def by (simp only: unat_of_nat16 unat_cu split: if_split) auto

lemma base64_char_digit: "n < 64 \<Longrightarrow> base64_char (base64_digit n)"
  by (auto simp add: base64_char_def in_range_unat cu_eq_unat unat_base64_digit)

lemma base64_digit_not_pad: "n < 64 \<Longrightarrow> base64_digit n \<noteq> cu CHR ''=''"
  by (auto simp add: cu_eq_unat unat_base64_digit)

lemma base64_value_digit: "n < 64 \<Longrightarrow> base64_value (base64_digit n) = Some n"
  by (auto simp add: base64_value_def in_range_unat cu_eq_unat unat_base64_digit)

lemma not_base64_char_pad: "\<not> base64_char (cu CHR ''='')"
  by (simp add: base64_char_def in_range_unat cu_eq_unat unat_cu)

lemma sextets_Nil: "sextets [] = []"
  by (simp add: sextets_def map_filter_simps)

lemma sextets_pad: "sextets (cu CHR ''='' # s) = []"
  by (simp add: sextets_def map_filter_simps)

lemma sextets_digit: "n < 64 \<Longrightarrow> sextets (base64_digit n # s) = n # sextets s"
  by (simp add: sextets_def map_filter_simps base64_digit_not_pad base64_value_digit)

lemma sextet_bounds:
  fixes a b c :: byte
  shows "unat a div 4 < 64" "unat a mod 4 * 16 + unat b div 16 < 64"
    "unat b mod 16 * 4 + unat c div 64 < 64" "unat c mod 64 < 64"
    "unat a mod 4 * 16 < 64" "unat b mod 16 * 4 < 64"
  using unat_byte_less [of a] unat_byte_less [of b] unat_byte_less [of c] by simp_all

lemma sextet_arith:
  fixes a b c m :: nat
  shows "b < 256 \<Longrightarrow> a div 4 * 4 + (a mod 4 * 16 + b div 16) div 16 = a"
    and "b < 256 \<Longrightarrow> c < 256 \<Longrightarrow>
         (a mod 4 * 16 + b div 16) mod 16 * 16 + (b mod 16 * 4 + c div 64) div 4 = b"
    and "c < 256 \<Longrightarrow> (b mod 16 * 4 + c div 64) mod 4 * 64 + c mod 64 = c"
    and "b < 256 \<Longrightarrow> (a mod 4 * 16 + b div 16) mod 16 * 16 + b mod 16 * 4 div 4 = b"
    and "a div 4 * 4 + a mod 4 * 16 div 16 = a"
proof -
  have m16: "(m * 16 + b div 16) mod 16 = b div 16" if "b < 256" for m b :: nat
    using that by simp
  have d4: "(m * 4 + c div 64) div 4 = m" if "c < 256" for m c :: nat
    using that by simp
  have m4: "(m * 4 + c div 64) mod 4 = c div 64" if "c < 256" for m c :: nat
    using that by simp
  show "b < 256 \<Longrightarrow> a div 4 * 4 + (a mod 4 * 16 + b div 16) div 16 = a"
    by simp
  show "b < 256 \<Longrightarrow> c < 256 \<Longrightarrow>
        (a mod 4 * 16 + b div 16) mod 16 * 16 + (b mod 16 * 4 + c div 64) div 4 = b"
    by (simp add: m16 d4)
  show "c < 256 \<Longrightarrow> (b mod 16 * 4 + c div 64) mod 4 * 64 + c mod 64 = c"
    by (simp add: m4)
  show "b < 256 \<Longrightarrow> (a mod 4 * 16 + b div 16) mod 16 * 16 + b mod 16 * 4 div 4 = b"
    by (simp add: m16)
  show "a div 4 * 4 + a mod 4 * 16 div 16 = a"
    by simp
qed

lemma bytes_of_sextets_three:
  fixes a b c :: byte
  shows "bytes_of_sextets (unat a div 4 # (unat a mod 4 * 16 + unat b div 16)
            # (unat b mod 16 * 4 + unat c div 64) # unat c mod 64 # rest)
         = a # b # c # bytes_of_sextets rest"
  by (simp only: bytes_of_sextets.simps sextet_arith unat_byte_less of_nat_unat ucast_id
      append.simps)

lemma bytes_of_sextets_two:
  fixes a b :: byte
  shows "bytes_of_sextets [unat a div 4, unat a mod 4 * 16 + unat b div 16, unat b mod 16 * 4]
         = [a, b]"
  by (simp only: bytes_of_sextets.simps sextet_arith unat_byte_less of_nat_unat ucast_id)

lemma bytes_of_sextets_one:
  fixes a :: byte
  shows "bytes_of_sextets [unat a div 4, unat a mod 4 * 16] = [a]"
  by (simp only: bytes_of_sextets.simps sextet_arith of_nat_unat ucast_id)

lemma decode_sextets_encode:
  "bytes_of_sextets (sextets (Buffer_toString_base64 bs)) = bs"
proof (induction bs rule: Buffer_toString_base64.induct)
  case (1 a b c rest)
  have "sextets (Buffer_toString_base64 (a # b # c # rest))
        = unat a div 4 # (unat a mod 4 * 16 + unat b div 16)
            # (unat b mod 16 * 4 + unat c div 64) # unat c mod 64
            # sextets (Buffer_toString_base64 rest)"
    by (simp add: sextets_digit sextet_bounds)
  with 1 show ?case
    by (simp only: bytes_of_sextets_three)
next
  case (2 a b)
  have "sextets (Buffer_toString_base64 [a, b])
        = [unat a div 4, unat a mod 4 * 16 + unat b div 16, unat b mod 16 * 4]"
    by (simp add: sextets_digit sextets_pad sextet_bounds)
  then show ?case
    by (simp only: bytes_of_sextets_two)
next
  case (3 a)
  have "sextets (Buffer_toString_base64 [a]) = [unat a div 4, unat a mod 4 * 16]"
    by (simp add: sextets_digit sextets_pad sextet_bounds)
  then show ?case
    by (simp only: bytes_of_sextets_one)
next
  case 4
  then show ?case by (simp add: sextets_Nil)
qed

lemma length_Buffer_toString_base64: "length (Buffer_toString_base64 bs) mod 4 = 0"
  by (induction bs rule: Buffer_toString_base64.induct) simp_all

lemma base64_correctly_encoded_encode: "base64_correctly_encoded (Buffer_toString_base64 bs)"
proof (induction bs rule: Buffer_toString_base64.induct)
  case (1 a b c rest)
  then show ?case
    by (simp add: base64_correctly_encoded_def base64_char_digit sextet_bounds)
next
  case (2 a b)
  then show ?case
    by (simp add: base64_correctly_encoded_def base64_char_digit sextet_bounds
        not_base64_char_pad js_def)
next
  case (3 a)
  then show ?case
    by (simp add: base64_correctly_encoded_def base64_char_digit sextet_bounds
        not_base64_char_pad js_def)
next
  case 4
  then show ?case by (simp add: base64_correctly_encoded_def)
qed

section \<open>parseSync: the shape of a result\<close>

lemma charset_not_inherited: "js ''charset'' \<notin> set Object_prototype_keys"
  by code_simp

lemma has_property_charset: "has_property (js ''charset'') obj = (js ''charset'' \<in> fst ` set obj)"
  by (simp add: has_property_def charset_not_inherited)

lemma text_plain_not_empty: "js ''text/plain'' \<noteq> []"
  by (simp add: js_def)

lemma default_mediatype_cases:
  "default_mediatype m params =
     (if m = [] \<and> params = [] then (js ''text/plain'', [(js ''charset'', js ''US-ASCII'')])
      else if m = [] \<and> js ''charset'' \<in> fst ` set params then (js ''text/plain'', params)
      else (m, params))"
  by (auto simp add: default_mediatype_def Let_def has_property_charset)

lemma parseSync_Some:
  "mediatype_tokens s = Some (flag, mime_token, tokens, payload) \<Longrightarrow>
   parseSync s =
     (case reduce tokens [] of
        Inl e \<Rightarrow> Inl e
      | Inr params \<Rightarrow>
          (case mime_token of
             None \<Rightarrow> Inl (TypeError ''Cannot read properties of undefined (reading length)'')
           | Some m \<Rightarrow>
               (case (if truthy flag then base64_decode else pct_decode) payload of
                  Inl e \<Rightarrow> Inl e
                | Inr d \<Rightarrow>
                    Inr \<lparr>base64 = flag, mime = Some (fst (default_mediatype m params)),
                         parameters = snd (default_mediatype m params), data = Buffer d\<rparr>)))"
  by (simp add: parseSync_def split: sum.splits option.splits prod.splits)

lemma parseSync_None: "mediatype_tokens s = None \<Longrightarrow> parseSync s = Inl (Error ''malformed dataurl'')"
  by (simp add: parseSync_def)

lemma parseSync_Inr:
  assumes "parseSync s = Inr r"
  obtains flag m tokens payload params d where
    "mediatype_tokens s = Some (flag, Some m, tokens, payload)"
    "reduce tokens [] = Inr params"
    "(if truthy flag then base64_decode else pct_decode) payload = Inr d"
    "r = \<lparr>base64 = flag, mime = Some (fst (default_mediatype m params)),
          parameters = snd (default_mediatype m params), data = Buffer d\<rparr>"
proof (cases "mediatype_tokens s")
  case None
  with assms show ?thesis by (simp add: parseSync_None)
next
  case (Some t)
  obtain flag mime_token tokens payload where t: "t = (flag, mime_token, tokens, payload)"
    by (cases t) auto
  from assms that show ?thesis
    unfolding parseSync_Some [OF Some [unfolded t]]
    by (auto simp add: Some t split: sum.splits option.splits)
qed

section \<open>Base64: the validation and the pattern\<close>

lemma take_drop_takeWhile:
  "take (length xs - length (dropWhile P xs)) xs = takeWhile P xs"
  "drop (length xs - length (dropWhile P xs)) xs = dropWhile P xs"
proof -
  have eq: "length xs - length (dropWhile P xs) = length (takeWhile P xs)"
    by (induction xs) (auto simp add: Suc_diff_le length_dropWhile_le)
  show "take (length xs - length (dropWhile P xs)) xs = takeWhile P xs"
    unfolding eq by (induction xs) auto
  show "drop (length xs - length (dropWhile P xs)) xs = dropWhile P xs"
    unfolding eq by (induction xs) auto
qed

lemma base64_correctly_encoded_imp_pattern:
  assumes "base64_correctly_encoded s"
  shows "base64_pattern s"
proof -
  define rest where "rest = dropWhile base64_char s"
  define n where "n = length rest"
  from assms have "rest = [] \<or> rest = [cu CHR ''=''] \<or> rest = [cu CHR ''='', cu CHR ''='']"
    by (simp add: base64_correctly_encoded_def Let_def js_def rest_def)
  then have rest: "rest = replicate n (cu CHR ''='')" and n: "n \<in> {0, 1, 2}"
    unfolding n_def by (auto simp add: numeral_2_eq_2)
  have body: "list_all base64_char (take (length s - n) s)"
    unfolding n_def rest_def take_drop_takeWhile list_all_iff by (meson set_takeWhileD)
  have "drop (length s - n) s = rest"
    unfolding n_def rest_def by (rule take_drop_takeWhile)
  with rest have "drop (length s - n) s = replicate n (cu CHR ''='')"
    by simp
  moreover have "n \<le> length s"
    unfolding n_def rest_def by (rule length_dropWhile_le)
  ultimately show ?thesis
    unfolding base64_pattern_def using n body by blast
qed

lemma base64_pattern_imp_correctly_encoded:
  assumes "base64_pattern s"
  shows "base64_correctly_encoded s"
proof -
  from assms obtain n where n: "n \<in> {0, 1, 2}" "n \<le> length s"
    and body: "list_all base64_char (take (length s - n) s)"
    and pad: "drop (length s - n) s = replicate n (cu CHR ''='')"
    unfolding base64_pattern_def by blast
  have "take (length s - n) s @ drop (length s - n) s = s"
    by (rule append_take_drop_id)
  then have s: "s = take (length s - n) s @ replicate n (cu CHR ''='')"
    unfolding pad by (rule sym)
  have "dropWhile base64_char (take (length s - n) s @ replicate n (cu CHR ''=''))
        = dropWhile base64_char (replicate n (cu CHR ''=''))"
    using body by (intro dropWhile_append2) (simp add: list_all_iff)
  then have "dropWhile base64_char s = dropWhile base64_char (replicate n (cu CHR ''=''))"
    using s by simp
  also have "\<dots> = replicate n (cu CHR ''='')"
    by (cases n) (simp_all add: not_base64_char_pad)
  finally show ?thesis
    using n by (auto simp add: base64_correctly_encoded_def js_def numeral_2_eq_2)
qed

lemma base64_correctly_encoded_iff: "base64_correctly_encoded s = base64_pattern s"
  using base64_correctly_encoded_imp_pattern base64_pattern_imp_correctly_encoded by blast

section \<open>Percent-encoding: the validation and the pattern\<close>

lemma pct_itemE:
  assumes "pct_item item"
  obtains c where "item = [c]" "unreserved_char c"
  | h1 h2 where "item = [cu CHR ''%'', h1, h2]" "hex_char h1" "hex_char h2"
  using assms
  by (auto simp add: pct_item_def split: list.splits)

lemma pct_item_unreserved: "unreserved_char c \<Longrightarrow> pct_item [c]"
  by (simp add: pct_item_def)

lemma pct_item_escape: "hex_char h1 \<Longrightarrow> hex_char h2 \<Longrightarrow> pct_item [cu CHR ''%'', h1, h2]"
  by (simp add: pct_item_def)

lemma pct_correctly_encoded_item:
  "pct_item item \<Longrightarrow> pct_correctly_encoded (item @ rest) = pct_correctly_encoded rest"
  by (erule pct_itemE) (auto dest: unreserved_char_not_percent)

lemma pct_correctly_encoded_items:
  "list_all pct_item items \<Longrightarrow> pct_correctly_encoded (concat items)"
  by (induction items) (simp_all add: pct_correctly_encoded_item)

lemma pct_correctly_encoded_imp_items:
  "pct_correctly_encoded s \<Longrightarrow> \<exists>items. list_all pct_item items \<and> s = concat items"
proof (induction s rule: pct_correctly_encoded.induct)
  case 1
  have "list_all pct_item [] \<and> [] = concat ([] :: jsstring list)" by simp
  then show ?case by blast
next
  case (2 c cs)
  show ?case
  proof (cases "unreserved_char c")
    case True
    with 2 obtain items where "list_all pct_item items" "cs = concat items"
      by auto
    with True have "list_all pct_item ([c] # items) \<and> c # cs = concat ([c] # items)"
      by (simp add: pct_item_unreserved)
    then show ?thesis by blast
  next
    case False
    with "2.prems" have e: "escaped_at (c # cs)" and r: "pct_correctly_encoded (drop 2 cs)"
      by (simp_all split: if_splits)
    from e obtain h1 h2 rest where cs: "cs = h1 # h2 # rest"
      and h: "c = cu CHR ''%''" "hex_char h1" "hex_char h2"
      by (cases "c # cs" rule: escaped_at.cases) auto
    from "2.IH"(2) [OF False e r] obtain items where
      "list_all pct_item items" "drop 2 cs = concat items"
      by auto
    with cs h have "list_all pct_item ([c, h1, h2] # items) \<and> c # cs = concat ([c, h1, h2] # items)"
      by (simp add: pct_item_escape)
    then show ?thesis by blast
  qed
qed

lemma pct_correctly_encoded_iff:
  "pct_correctly_encoded s \<longleftrightarrow> (\<exists>items. list_all pct_item items \<and> s = concat items)"
  using pct_correctly_encoded_imp_items pct_correctly_encoded_items by blast

lemma unat_unreserved_less: "unreserved_char c \<Longrightarrow> unat c < 128"
  by (auto simp add: unreserved_char_def in_range_unat cu_eq_unat)

lemma split_decode_items:
  "list_all pct_item items \<Longrightarrow> list_all unreserved_char piece \<Longrightarrow>
   concat (map pct_decode_part (split_escaped piece (concat items)))
     = Buffer_from_ascii piece @ map pct_item_byte items"
proof (induction items arbitrary: piece)
  case Nil
  then show ?case by (simp add: pct_decode_part_unreserved)
next
  case (Cons item items)
  from Cons.prems have item: "pct_item item" and items: "list_all pct_item items"
    by simp_all
  from item show ?case
  proof (cases rule: pct_itemE)
    case (1 c)
    then have "list_all unreserved_char (piece @ [c])"
      using Cons.prems by simp
    from Cons.IH [OF items this] have
      "concat (map pct_decode_part (split_escaped (piece @ [c]) (concat items)))
         = Buffer_from_ascii piece @ ucast c # map pct_item_byte items"
      by (simp add: Buffer_from_ascii_def)
    moreover have "pct_item_byte [c] = ucast c"
      by (simp add: pct_item_byte_def)
    ultimately show ?thesis
      using 1 by (simp add: split_escaped_unreserved del: split_escaped.simps)
  next
    case (2 h1 h2)
    have "list_all unreserved_char []" by simp
    from Cons.IH [OF items this] have
      "concat (map pct_decode_part (split_escaped [] (concat items))) = map pct_item_byte items"
      by (simp add: Buffer_from_ascii_def)
    moreover have "pct_item_byte [cu CHR ''%'', h1, h2] = of_nat (16 * hex_value h1 + hex_value h2)"
      by (simp add: pct_item_byte_def)
    ultimately show ?thesis
      using 2 Cons.prems(2)
      by (simp add: split_escaped_escape pct_decode_part_escape pct_decode_part_unreserved
          del: split_escaped.simps)
  qed
qed

lemma pct_decode_items:
  "list_all pct_item items \<Longrightarrow> pct_decode (concat items) = Inr (map pct_item_byte items)"
  using split_decode_items [of items "[]"]
  by (simp add: pct_decode_def pct_correctly_encoded_items Buffer_from_ascii_def)

section \<open>Splitting at a character\<close>

lemma split_char_unfold:
  "split_char sep piece s =
     (piece @ takeWhile (\<lambda>c. c \<noteq> sep) s)
       # (case dropWhile (\<lambda>c. c \<noteq> sep) s of [] \<Rightarrow> [] | _ # rest \<Rightarrow> split_char sep [] rest)"
  by (induction s arbitrary: piece) simp_all

lemma split_char_no_sep: "sep \<notin> set t \<Longrightarrow> split_char sep piece t = [piece @ t]"
  by (induction t arbitrary: piece) auto

lemma split_char_sep:
  "sep \<notin> set t \<Longrightarrow> split_char sep piece (t @ sep # rest) = (piece @ t) # split_char sep [] rest"
  by (induction t arbitrary: piece) auto

lemma length_split_char: "length (split_char sep piece s) = Suc (count_list s sep)"
  by (induction s arbitrary: piece) auto

lemma count_list_0_iff: "count_list xs x = 0 \<longleftrightarrow> x \<notin> set xs"
  by (induction xs) auto

lemma split_char_two:
  assumes "count_list s sep = 1"
  obtains a v where "s = a @ sep # v" "sep \<notin> set a" "sep \<notin> set v"
    "split_char sep [] s = [a, v]"
proof -
  let ?a = "takeWhile (\<lambda>c. c \<noteq> sep) s"
  have "sep \<in> set s"
    using assms count_list_0_iff [of s sep] by auto
  then obtain v where d: "dropWhile (\<lambda>c. c \<noteq> sep) s = sep # v"
    by (metis (mono_tags, lifting) dropWhile_eq_Nil_conv hd_dropWhile list.exhaust_sel)
  have s: "s = ?a @ sep # v"
    using takeWhile_dropWhile_id [of "\<lambda>c. c \<noteq> sep" s] d by simp
  have a: "sep \<notin> set ?a"
    using set_takeWhileD [of sep "\<lambda>c. c \<noteq> sep" s] by blast
  have "count_list s sep = count_list ?a sep + Suc (count_list v sep)"
    by (subst s) simp
  with a assms have v: "sep \<notin> set v"
    by (simp add: count_list_0_iff [symmetric])
  have "split_char sep [] s = [?a, v]"
    by (subst s) (simp add: split_char_sep [OF a] split_char_no_sep [OF v])
  with s a v that show ?thesis by blast
qed

section \<open>The function given to reduce\<close>

lemma pct_decode_error: "pct_decode s = Inl e \<Longrightarrow> e = Error ''malformed data''"
  by (simp add: pct_decode_def split: if_splits)

lemma base64_decode_error: "base64_decode s = Inl e \<Longrightarrow> e = Error ''malformed data''"
  by (simp add: base64_decode_def split: if_splits)

lemma reduce_parameter_invalid:
  "reduce_parameter params token = Inl (Error ''invalid dataurl parameter'')
     \<longleftrightarrow> count_list token (cu CHR ''='') \<noteq> 1"
  by (auto simp add: reduce_parameter_def split_def length_split_char Let_def
      split: sum.splits dest: pct_decode_error)

lemma reduce_parameter_Inr:
  assumes "reduce_parameter params token = Inr params'"
  shows "\<exists>a v ab vb. token = a @ js ''='' @ v \<and> cu CHR ''='' \<notin> set a \<and> cu CHR ''='' \<notin> set v
           \<and> pct_decode a = Inr ab \<and> pct_decode v = Inr vb
           \<and> params' = (if has_property (Buffer_toString ab) params then params
                         else set_property params (Buffer_toString ab) (Buffer_toString vb))"
proof -
  from assms have "count_list token (cu CHR ''='') = 1"
    by (auto simp add: reduce_parameter_def split_def length_split_char Let_def split: if_splits)
  then obtain a v where t: "token = a @ cu CHR ''='' # v"
    and a: "cu CHR ''='' \<notin> set a" and v: "cu CHR ''='' \<notin> set v"
    and s: "split_char (cu CHR ''='') [] token = [a, v]"
    by (rule split_char_two)
  from assms s obtain ab vb where "pct_decode a = Inr ab" "pct_decode v = Inr vb"
    "params' = (if has_property (Buffer_toString ab) params then params
                else set_property params (Buffer_toString ab) (Buffer_toString vb))"
    by (auto simp add: reduce_parameter_def split_def Let_def split: sum.splits if_splits)
  with t a v show ?thesis
    by (auto simp add: js_def)
qed

lemma reduce_Inl_iff:
  "reduce tokens acc = Inl e \<longleftrightarrow>
     (\<exists>i acc'. i < length tokens \<and> reduce (take i tokens) acc = Inr acc'
        \<and> reduce_parameter acc' (tokens ! i) = Inl e)"
proof (induction tokens arbitrary: acc)
  case Nil
  then show ?case by simp
next
  case (Cons t ts)
  show ?case
  proof (cases "reduce_parameter acc t")
    case (Inl e')
    have "(\<exists>i acc'. i < length (t # ts) \<and> reduce (take i (t # ts)) acc = Inr acc'
        \<and> reduce_parameter acc' ((t # ts) ! i) = Inl e) \<longleftrightarrow> e' = e"
    proof
      assume "\<exists>i acc'. i < length (t # ts) \<and> reduce (take i (t # ts)) acc = Inr acc'
        \<and> reduce_parameter acc' ((t # ts) ! i) = Inl e"
      then obtain i acc' where i: "i < length (t # ts)"
        "reduce (take i (t # ts)) acc = Inr acc'" "reduce_parameter acc' ((t # ts) ! i) = Inl e"
        by blast
      show "e' = e"
      proof (cases i)
        case 0
        with i Inl show ?thesis by simp
      next
        case (Suc j)
        with i Inl show ?thesis by simp
      qed
    next
      assume "e' = e"
      with Inl have "0 < length (t # ts) \<and> reduce (take 0 (t # ts)) acc = Inr acc
        \<and> reduce_parameter acc ((t # ts) ! 0) = Inl e"
        by simp
      then show "\<exists>i acc'. i < length (t # ts) \<and> reduce (take i (t # ts)) acc = Inr acc'
        \<and> reduce_parameter acc' ((t # ts) ! i) = Inl e"
        by blast
    qed
    with Inl show ?thesis by auto
  next
    case (Inr acc1)
    have "(\<exists>i acc'. i < length (t # ts) \<and> reduce (take i (t # ts)) acc = Inr acc'
        \<and> reduce_parameter acc' ((t # ts) ! i) = Inl e)
      \<longleftrightarrow> (\<exists>j acc'. j < length ts \<and> reduce (take j ts) acc1 = Inr acc'
        \<and> reduce_parameter acc' (ts ! j) = Inl e)"
    proof
      assume "\<exists>i acc'. i < length (t # ts) \<and> reduce (take i (t # ts)) acc = Inr acc'
        \<and> reduce_parameter acc' ((t # ts) ! i) = Inl e"
      then obtain i acc' where i: "i < length (t # ts)"
        "reduce (take i (t # ts)) acc = Inr acc'" "reduce_parameter acc' ((t # ts) ! i) = Inl e"
        by blast
      show "\<exists>j acc'. j < length ts \<and> reduce (take j ts) acc1 = Inr acc'
        \<and> reduce_parameter acc' (ts ! j) = Inl e"
      proof (cases i)
        case 0
        with i Inr show ?thesis by simp
      next
        case (Suc j)
        with i Inr have "j < length ts \<and> reduce (take j ts) acc1 = Inr acc'
          \<and> reduce_parameter acc' (ts ! j) = Inl e"
          by simp
        then show ?thesis by blast
      qed
    next
      assume "\<exists>j acc'. j < length ts \<and> reduce (take j ts) acc1 = Inr acc'
        \<and> reduce_parameter acc' (ts ! j) = Inl e"
      then obtain j acc' where "j < length ts" "reduce (take j ts) acc1 = Inr acc'"
        "reduce_parameter acc' (ts ! j) = Inl e"
        by blast
      with Inr have "Suc j < length (t # ts) \<and> reduce (take (Suc j) (t # ts)) acc = Inr acc'
        \<and> reduce_parameter acc' ((t # ts) ! Suc j) = Inl e"
        by simp
      then show "\<exists>i acc'. i < length (t # ts) \<and> reduce (take i (t # ts)) acc = Inr acc'
        \<and> reduce_parameter acc' ((t # ts) ! i) = Inl e"
        by blast
    qed
    with Inr Cons.IH [of acc1] show ?thesis by simp
  qed
qed

lemma parseSync_invalid_parameter_iff:
  "parseSync s = Inl (Error ''invalid dataurl parameter'') \<longleftrightarrow>
     (\<exists>flag mime_token tokens payload.
        mediatype_tokens s = Some (flag, mime_token, tokens, payload)
        \<and> reduce tokens [] = Inl (Error ''invalid dataurl parameter''))"
proof (cases "mediatype_tokens s")
  case None
  then show ?thesis by (simp add: parseSync_None)
next
  case (Some t)
  obtain flag mime_token tokens payload where t: "t = (flag, mime_token, tokens, payload)"
    by (cases t) auto
  have "parseSync s = Inl (Error ''invalid dataurl parameter'')
          \<longleftrightarrow> reduce tokens [] = Inl (Error ''invalid dataurl parameter'')"
    unfolding parseSync_Some [OF Some [unfolded t]]
    by (auto split: sum.splits option.splits if_splits
        dest: pct_decode_error base64_decode_error)
  then show ?thesis by (simp add: Some t)
qed

section \<open>UTF-8: decoding what the encoder writes\<close>

lemma unat_of_nat8: "k < 256 \<Longrightarrow> unat (of_nat k :: byte) = k"
  by (simp add: unat_of_nat)

lemma byte_eq_unat: "(b = (numeral n :: byte)) = (unat b = unat (numeral n :: byte))"
  by (simp add: word_unat_eq_iff)

lemma continuation_unat: "continuation b = (128 \<le> unat b \<and> unat b \<le> 191)"
  by (simp add: continuation_def word_le_nat_alt)

lemma second_byte_unat:
  "second_byte lead b =
     ((if unat lead = 224 then 160 else if unat lead = 240 then 144 else 128) \<le> unat b \<and>
      unat b \<le> (if unat lead = 237 then 159 else if unat lead = 244 then 143 else 191))"
  by (simp add: second_byte_def word_le_nat_alt byte_eq_unat)

lemma utf8_decode_1:
  "unat b < 128 \<Longrightarrow> utf8_decode (b # rest) = ucast b # utf8_decode rest"
  by (simp add: word_less_nat_alt)

lemma utf8_decode_2:
  "194 \<le> unat b \<Longrightarrow> unat b \<le> 223 \<Longrightarrow> continuation c \<Longrightarrow>
   utf8_decode (b # c # rest)
     = units_of_code_point ((unat b - 0xC0) * 64 + (unat c - 0x80)) @ utf8_decode rest"
  by (simp add: word_less_nat_alt word_le_nat_alt)

lemma utf8_decode_3:
  "224 \<le> unat b \<Longrightarrow> unat b \<le> 239 \<Longrightarrow> second_byte b c \<Longrightarrow> continuation d \<Longrightarrow>
   utf8_decode (b # c # d # rest)
     = units_of_code_point ((unat b - 0xE0) * 4096 + (unat c - 0x80) * 64 + (unat d - 0x80))
       @ utf8_decode rest"
  by (simp add: word_less_nat_alt word_le_nat_alt)

lemma utf8_decode_4:
  "240 \<le> unat b \<Longrightarrow> unat b \<le> 244 \<Longrightarrow> second_byte b c \<Longrightarrow> continuation d \<Longrightarrow>
   continuation e \<Longrightarrow>
   utf8_decode (b # c # d # e # rest)
     = units_of_code_point ((unat b - 0xF0) * 262144 + (unat c - 0x80) * 4096
                            + (unat d - 0x80) * 64 + (unat e - 0x80))
       @ utf8_decode rest"
  by (simp add: word_less_nat_alt word_le_nat_alt)

lemma radix64_abstract:
  fixes cp q1 r1 q2 r2 q3 r3 :: nat
  assumes "cp = 64 * q1 + r1" "r1 < 64" "q1 = 64 * q2 + r2" "r2 < 64"
    "q2 = 64 * q3 + r3" "r3 < 64"
  shows "cp < 55296 \<Longrightarrow> q2 = 13 \<Longrightarrow> r2 \<le> 31"
    and "2048 \<le> cp \<Longrightarrow> q2 = 0 \<Longrightarrow> 32 \<le> r2"
    and "cp < 1114112 \<Longrightarrow> q3 = 4 \<Longrightarrow> r3 \<le> 15"
    and "65536 \<le> cp \<Longrightarrow> q3 = 0 \<Longrightarrow> 16 \<le> r3"
    and "q2 * 4096 + r2 * 64 + r1 = cp"
    and "q3 * 262144 + r3 * 4096 + r2 * 64 + r1 = cp"
    and "cp < 65536 \<Longrightarrow> q2 < 16"
    and "cp < 1114112 \<Longrightarrow> q3 \<le> 4"
  using assms by linarith+

lemma radix64:
  fixes cp :: nat
  shows "cp < 55296 \<Longrightarrow> cp div 4096 = 13 \<Longrightarrow> cp div 64 mod 64 \<le> 31"
    and "2048 \<le> cp \<Longrightarrow> cp div 4096 = 0 \<Longrightarrow> 32 \<le> cp div 64 mod 64"
    and "cp < 1114112 \<Longrightarrow> cp div 262144 = 4 \<Longrightarrow> cp div 4096 mod 64 \<le> 15"
    and "65536 \<le> cp \<Longrightarrow> cp div 262144 = 0 \<Longrightarrow> 16 \<le> cp div 4096 mod 64"
    and "cp div 4096 * 4096 + cp div 64 mod 64 * 64 + cp mod 64 = cp"
    and "cp div 262144 * 262144 + cp div 4096 mod 64 * 4096 + cp div 64 mod 64 * 64 + cp mod 64
          = cp"
    and "cp < 65536 \<Longrightarrow> cp div 4096 < 16"
    and "cp < 1114112 \<Longrightarrow> cp div 262144 \<le> 4"
proof -
  have 1: "cp = 64 * (cp div 64) + cp mod 64" "cp mod 64 < 64"
    by simp_all
  have "cp div 4096 = cp div 64 div 64"
    using div_mult2_eq [of cp 64 64] by simp
  then have 2: "cp div 64 = 64 * (cp div 4096) + cp div 64 mod 64" "cp div 64 mod 64 < 64"
    by simp_all
  have "cp div 262144 = cp div 4096 div 64"
    using div_mult2_eq [of cp 4096 64] by simp
  then have 3: "cp div 4096 = 64 * (cp div 262144) + cp div 4096 mod 64"
    "cp div 4096 mod 64 < 64"
    by simp_all
  note r = radix64_abstract [OF 1 2 3]
  show "cp < 55296 \<Longrightarrow> cp div 4096 = 13 \<Longrightarrow> cp div 64 mod 64 \<le> 31" by (rule r)
  show "2048 \<le> cp \<Longrightarrow> cp div 4096 = 0 \<Longrightarrow> 32 \<le> cp div 64 mod 64" by (rule r)
  show "cp < 1114112 \<Longrightarrow> cp div 262144 = 4 \<Longrightarrow> cp div 4096 mod 64 \<le> 15" by (rule r)
  show "65536 \<le> cp \<Longrightarrow> cp div 262144 = 0 \<Longrightarrow> 16 \<le> cp div 4096 mod 64" by (rule r)
  show "cp div 4096 * 4096 + cp div 64 mod 64 * 64 + cp mod 64 = cp" by (rule r)
  show "cp div 262144 * 262144 + cp div 4096 mod 64 * 4096 + cp div 64 mod 64 * 64 + cp mod 64
          = cp" by (rule r)
  show "cp < 65536 \<Longrightarrow> cp div 4096 < 16" by (rule r)
  show "cp < 1114112 \<Longrightarrow> cp div 262144 \<le> 4" by (rule r)
qed

lemma unat_ucast_byte: "unat (ucast (b::byte) :: jschar) = unat b"
  by transfer simp

lemma ucast_of_nat_byte: "k < 256 \<Longrightarrow> (ucast (of_nat k :: byte) :: jschar) = of_nat k"
proof -
  assume k: "k < 256"
  have "unat (ucast (of_nat k :: byte) :: jschar) = unat (of_nat k :: jschar)"
    using k by (simp only: unat_ucast_byte unat_of_nat8 unat_of_nat16)
  then show ?thesis
    by (simp only: word_unat_eq_iff)
qed

lemma decode_code_point_1:
  assumes "cp < 0x80"
  shows "utf8_decode (utf8_of_code_point cp @ rest) = units_of_code_point cp @ utf8_decode rest"
proof -
  define b :: byte where "b = of_nat cp"
  have ub: "unat b = cp"
    unfolding b_def using assms by (intro unat_of_nat8) simp
  have "ucast b = (of_nat cp :: jschar)"
    unfolding b_def using assms by (intro ucast_of_nat_byte) simp
  moreover have "utf8_of_code_point cp = [b]"
    using assms by (simp add: utf8_of_code_point_def b_def)
  moreover have "units_of_code_point cp = [of_nat cp]"
    using assms by (simp add: units_of_code_point_def)
  moreover have "utf8_decode (b # rest) = ucast b # utf8_decode rest"
    using assms ub by (intro utf8_decode_1) simp
  ultimately show ?thesis by simp
qed

lemma decode_code_point_2:
  assumes "0x80 \<le> cp" "cp < 0x800"
  shows "utf8_decode (utf8_of_code_point cp @ rest) = units_of_code_point cp @ utf8_decode rest"
proof -
  define b :: byte where "b = of_nat (0xC0 + cp div 64)"
  define c :: byte where "c = of_nat (0x80 + cp mod 64)"
  have ub: "unat b = 0xC0 + cp div 64"
    unfolding b_def using assms by (intro unat_of_nat8) simp
  have uc: "unat c = 0x80 + cp mod 64"
    unfolding c_def by (intro unat_of_nat8) simp
  have enc: "utf8_of_code_point cp = [b, c]"
    using assms by (simp add: utf8_of_code_point_def b_def c_def)
  have "utf8_decode (b # c # rest)
     = units_of_code_point ((unat b - 0xC0) * 64 + (unat c - 0x80)) @ utf8_decode rest"
    using assms by (intro utf8_decode_2) (simp_all add: ub uc continuation_unat)
  moreover have "(unat b - 0xC0) * 64 + (unat c - 0x80) = cp"
    by (simp add: ub uc)
  ultimately show ?thesis by (simp add: enc)
qed

lemma decode_code_point_3:
  assumes "0x800 \<le> cp" "cp < 0x10000" "cp < 0xD800 \<or> 0xDFFF < cp"
  shows "utf8_decode (utf8_of_code_point cp @ rest) = units_of_code_point cp @ utf8_decode rest"
proof -
  define b :: byte where "b = of_nat (0xE0 + cp div 4096)"
  define c :: byte where "c = of_nat (0x80 + cp div 64 mod 64)"
  define d :: byte where "d = of_nat (0x80 + cp mod 64)"
  have ub: "unat b = 0xE0 + cp div 4096"
    unfolding b_def using assms radix64(7) [of cp] by (intro unat_of_nat8) simp
  have uc: "unat c = 0x80 + cp div 64 mod 64"
    unfolding c_def by (intro unat_of_nat8) simp
  have ud: "unat d = 0x80 + cp mod 64"
    unfolding d_def by (intro unat_of_nat8) simp
  have enc: "utf8_of_code_point cp = [b, c, d]"
    using assms by (simp add: utf8_of_code_point_def b_def c_def d_def)
  have sb: "second_byte b c"
    using assms radix64(1,2) [of cp] unfolding second_byte_unat ub uc by auto
  have "utf8_decode (b # c # d # rest)
     = units_of_code_point ((unat b - 0xE0) * 4096 + (unat c - 0x80) * 64 + (unat d - 0x80))
       @ utf8_decode rest"
    using assms sb radix64(7) [of cp] by (intro utf8_decode_3) (simp_all add: ub ud continuation_unat)
  moreover have "(unat b - 0xE0) * 4096 + (unat c - 0x80) * 64 + (unat d - 0x80) = cp"
    unfolding ub uc ud using radix64(5) [of cp] by simp
  ultimately show ?thesis by (simp add: enc)
qed

lemma decode_code_point_4:
  assumes "0x10000 \<le> cp" "cp < 0x110000"
  shows "utf8_decode (utf8_of_code_point cp @ rest) = units_of_code_point cp @ utf8_decode rest"
proof -
  define b :: byte where "b = of_nat (0xF0 + cp div 262144)"
  define c :: byte where "c = of_nat (0x80 + cp div 4096 mod 64)"
  define d :: byte where "d = of_nat (0x80 + cp div 64 mod 64)"
  define e :: byte where "e = of_nat (0x80 + cp mod 64)"
  have ub: "unat b = 0xF0 + cp div 262144"
    unfolding b_def using assms radix64(8) [of cp] by (intro unat_of_nat8) simp
  have uc: "unat c = 0x80 + cp div 4096 mod 64"
    unfolding c_def by (intro unat_of_nat8) simp
  have ud: "unat d = 0x80 + cp div 64 mod 64"
    unfolding d_def by (intro unat_of_nat8) simp
  have ue: "unat e = 0x80 + cp mod 64"
    unfolding e_def by (intro unat_of_nat8) simp
  have enc: "utf8_of_code_point cp = [b, c, d, e]"
    using assms by (simp add: utf8_of_code_point_def b_def c_def d_def e_def)
  have sb: "second_byte b c"
    using assms radix64(3,4) [of cp] unfolding second_byte_unat ub uc by auto
  have "utf8_decode (b # c # d # e # rest)
     = units_of_code_point ((unat b - 0xF0) * 262144 + (unat c - 0x80) * 4096
                            + (unat d - 0x80) * 64 + (unat e - 0x80))
       @ utf8_decode rest"
    using assms sb radix64(8) [of cp] by (intro utf8_decode_4) (simp_all add: ub ud ue continuation_unat)
  moreover have "(unat b - 0xF0) * 262144 + (unat c - 0x80) * 4096
                            + (unat d - 0x80) * 64 + (unat e - 0x80) = cp"
    unfolding ub uc ud ue using radix64(6) [of cp] by simp
  ultimately show ?thesis by (simp add: enc)
qed

lemma decode_code_point:
  assumes "cp < 0x110000" "cp < 0xD800 \<or> 0xDFFF < cp"
  shows "utf8_decode (utf8_of_code_point cp @ rest) = units_of_code_point cp @ utf8_decode rest"
proof -
  consider "cp < 0x80" | "0x80 \<le> cp" "cp < 0x800" | "0x800 \<le> cp" "cp < 0x10000"
    | "0x10000 \<le> cp"
    by linarith
  then show ?thesis
  proof cases
    case 1
    then show ?thesis by (rule decode_code_point_1)
  next
    case 2
    then show ?thesis by (rule decode_code_point_2)
  next
    case 3
    with assms(2) show ?thesis by (intro decode_code_point_3)
  next
    case 4
    with assms(1) show ?thesis by (intro decode_code_point_4)
  qed
qed

lemma high_surrogate_unat: "high_surrogate u = (0xD800 \<le> unat u \<and> unat u \<le> 0xDBFF)"
  by (simp add: high_surrogate_def word_le_nat_alt)

lemma low_surrogate_unat: "low_surrogate u = (0xDC00 \<le> unat u \<and> unat u \<le> 0xDFFF)"
  by (simp add: low_surrogate_def word_le_nat_alt)

lemma unat_jschar_less: "unat (u::jschar) < 65536"
  using unsigned_less [of u] by simp

lemma decode_unit:
  assumes "\<not> high_surrogate u" "\<not> low_surrogate u"
  shows "utf8_decode (utf8_of_unit u @ rest) = u # utf8_decode rest"
proof -
  have "unat u < 0x110000"
    using unat_jschar_less [of u] by simp
  moreover have "unat u < 0xD800 \<or> 0xDFFF < unat u"
    using assms unfolding high_surrogate_unat low_surrogate_unat by linarith
  ultimately have "utf8_decode (utf8_of_code_point (unat u) @ rest)
      = units_of_code_point (unat u) @ utf8_decode rest"
    by (rule decode_code_point)
  moreover have "units_of_code_point (unat u) = [u]"
    using unat_jschar_less [of u] by (simp add: units_of_code_point_def)
  ultimately show ?thesis
    using assms by (simp add: utf8_of_unit_def)
qed

lemma decode_pair:
  assumes "high_surrogate u" "low_surrogate v"
  shows "utf8_decode (utf8_of_code_point (0x10000 + (unat u - 0xD800) * 0x400 + (unat v - 0xDC00))
            @ rest) = u # v # utf8_decode rest"
proof -
  define h where "h = unat u - 0xD800"
  define l where "l = unat v - 0xDC00"
  define cp where "cp = 0x10000 + h * 0x400 + l"
  have h: "h < 0x400" "unat u = 0xD800 + h"
    using assms(1) unfolding high_surrogate_unat h_def by linarith+
  have l: "l < 0x400" "unat v = 0xDC00 + l"
    using assms(2) unfolding low_surrogate_unat l_def by linarith+
  have cp: "0x10000 \<le> cp" "cp < 0x110000"
    using h(1) l(1) unfolding cp_def by simp_all
  have "(cp - 0x10000) div 0x400 = h" "(cp - 0x10000) mod 0x400 = l"
    using l(1) unfolding cp_def by simp_all
  then have "units_of_code_point cp = [of_nat (unat u), of_nat (unat v)]"
    using cp(1) by (simp only: units_of_code_point_def h(2) l(2)) simp
  then have units: "units_of_code_point cp = [u, v]"
    by (simp only: of_nat_unat ucast_id)
  have "utf8_decode (utf8_of_code_point cp @ rest) = units_of_code_point cp @ utf8_decode rest"
    using cp by (intro decode_code_point) simp_all
  then have "utf8_decode (utf8_of_code_point cp @ rest) = u # v # utf8_decode rest"
    by (simp only: units append.simps)
  then show ?thesis
    unfolding cp_def h_def l_def .
qed

lemma utf8_decode_encode: "well_formed s \<Longrightarrow> utf8_decode (utf8_encode s) = s"
proof (induction s rule: utf8_encode.induct)
  case (1 u v rest)
  show ?case
  proof (cases "high_surrogate u")
    case True
    with "1.prems" have v: "low_surrogate v" and wf: "well_formed rest"
      by simp_all
    from "1.IH"(1) True v wf have "utf8_decode (utf8_encode rest) = rest"
      by simp
    moreover have "utf8_encode (u # v # rest)
        = utf8_of_code_point (0x10000 + (unat u - 0xD800) * 0x400 + (unat v - 0xDC00))
          @ utf8_encode rest"
      using True v by simp
    ultimately show ?thesis
      using True v by (simp add: decode_pair del: utf8_decode.simps utf8_encode.simps)
  next
    case False
    with "1.prems" have u: "\<not> low_surrogate u" and wf: "well_formed (v # rest)"
      by simp_all
    from "1.IH"(2) False wf have "utf8_decode (utf8_encode (v # rest)) = v # rest"
      by simp
    moreover have "utf8_encode (u # v # rest) = utf8_of_unit u @ utf8_encode (v # rest)"
      using False by simp
    ultimately show ?thesis
      using False u by (simp add: decode_unit del: utf8_decode.simps utf8_encode.simps)
  qed
next
  case (2 u)
  then show ?case
    using decode_unit [of u "[]"] by simp
next
  case 3
  then show ?case by simp
qed

lemma Buffer_toString_Buffer_from:
  "well_formed s \<Longrightarrow> Buffer_toString (Buffer_from (Str s)) = s"
  by (simp add: Buffer_toString_def utf8_decode_encode)

section \<open>The characters of encoded text\<close>

lemma unreserved_hex_digit: "n < 16 \<Longrightarrow> unreserved_char (hex_digit n)"
  by (simp add: unreserved_char_def in_range_unat unat_hex_digit)

lemma pct_of_byte_chars:
  "c \<in> set (pct_of_byte b) \<Longrightarrow> unreserved_char c \<or> c = cu CHR ''%''"
  using unat_byte_less [of b]
  by (auto simp add: pct_of_byte_def unreserved_hex_digit split: if_splits)

lemma pct_encode_chars:
  "c \<in> set (pct_encode arg) \<Longrightarrow> unreserved_char c \<or> c = cu CHR ''%''"
  by (auto simp add: pct_encode_concat dest: pct_of_byte_chars)

lemma line_terminator_unat:
  "line_terminator c = (unat c = 10 \<or> unat c = 13 \<or> unat c = 8232 \<or> unat c = 8233)"
  by (simp add: line_terminator_def word_unat_eq_iff)

lemma pct_char_plain:
  assumes "unreserved_char c \<or> c = cu CHR ''%''"
  shows "c \<noteq> cu CHR '',''" "c \<noteq> cu CHR '';''" "c \<noteq> cu CHR ''=''" "\<not> line_terminator c"
  using assms
  by (auto simp add: unreserved_char_def in_range_unat cu_eq_unat line_terminator_unat)

lemma base64_text_chars:
  "c \<in> set (Buffer_toString_base64 bs) \<Longrightarrow> base64_char c \<or> c = cu CHR ''=''"
  by (induction bs rule: Buffer_toString_base64.induct)
    (auto simp add: base64_char_digit sextet_bounds)

lemma base64_char_plain:
  assumes "base64_char c \<or> c = cu CHR ''=''"
  shows "c \<noteq> cu CHR '',''" "\<not> line_terminator c"
  using assms
  by (auto simp add: base64_char_def in_range_unat cu_eq_unat line_terminator_unat)

section \<open>Matching and splitting a composed text\<close>

lemma takeWhile_until: "x \<notin> set xs \<Longrightarrow> takeWhile (\<lambda>c. c \<noteq> x) (xs @ x # ys) = xs"
  by (induction xs) auto

lemma dropWhile_until: "x \<notin> set xs \<Longrightarrow> dropWhile (\<lambda>c. c \<noteq> x) (xs @ x # ys) = x # ys"
  by (induction xs) auto

lemma dataurl_match_composed:
  assumes "cu CHR '','' \<notin> set g1" "\<not> list_ex line_terminator g1" "\<not> list_ex line_terminator g2"
  shows "dataurl_match (js ''data:'' @ g1 @ js '','' @ g2) = Some (g1, g2)"
proof -
  have rest: "drop 5 (js ''data:'' @ g1 @ js '','' @ g2) = g1 @ cu CHR '','' # g2"
    and pre: "take 5 (js ''data:'' @ g1 @ js '','' @ g2) = js ''data:''"
    by (simp_all add: js_def)
  have "\<not> line_terminator (cu CHR '','')"
    by (simp add: line_terminator_unat unat_cu)
  with assms have lt: "\<not> list_ex line_terminator (g1 @ cu CHR '','' # g2)"
    by (auto simp add: list_ex_iff)
  have tw: "takeWhile (\<lambda>c. c \<noteq> cu CHR '','') (g1 @ cu CHR '','' # g2) = g1"
    using assms(1) by (rule takeWhile_until)
  have dw: "dropWhile (\<lambda>c. c \<noteq> cu CHR '','') (g1 @ cu CHR '','' # g2) = cu CHR '','' # g2"
    using assms(1) by (rule dropWhile_until)
  show ?thesis
    unfolding dataurl_match_def rest pre Let_def tw dw using lt by simp
qed

lemma split_char_join:
  "\<forall>t \<in> set (t0 # ts). sep \<notin> set t \<Longrightarrow>
   split_char sep piece (join (t0 # ts) [sep]) = (piece @ t0) # ts"
proof (induction ts arbitrary: t0 piece)
  case Nil
  then show ?case by (simp add: split_char_no_sep)
next
  case (Cons t ts)
  then have "split_char sep [] (join (t # ts) [sep]) = t # ts"
    by simp
  with Cons.prems show ?case
    by (simp add: split_char_sep)
qed

lemma join_snoc: "ts \<noteq> [] \<Longrightarrow> join (ts @ [t]) sep = join ts sep @ sep @ t"
  by (induction ts sep rule: join.induct) auto

section \<open>Parsing composed parameters\<close>

lemma compose_parameter_eq:
  "compose_parameter (k, v) = pct_encode (Str k) @ cu CHR ''='' # pct_encode (Str v)"
  by (simp add: compose_parameter_def js_def Let_def)

lemma compose_parameter_chars:
  assumes "c \<in> set (compose_parameter kv)"
  shows "c \<noteq> cu CHR '',''" "c \<noteq> cu CHR '';''" "\<not> line_terminator c"
proof -
  obtain k v where kv: "kv = (k, v)" by (cases kv)
  from assms have "(unreserved_char c \<or> c = cu CHR ''%'') \<or> c = cu CHR ''=''"
    unfolding kv compose_parameter_eq by (auto dest: pct_encode_chars)
  then have "c \<noteq> cu CHR '','' \<and> c \<noteq> cu CHR '';'' \<and> \<not> line_terminator c"
  proof
    assume "unreserved_char c \<or> c = cu CHR ''%''"
    then show ?thesis using pct_char_plain by blast
  next
    assume "c = cu CHR ''=''"
    then show ?thesis by (simp add: line_terminator_unat cu_eq_unat unat_cu)
  qed
  then show "c \<noteq> cu CHR '',''" "c \<noteq> cu CHR '';''" "\<not> line_terminator c"
    by simp_all
qed

lemma compose_parameter_not_base64: "compose_parameter kv \<noteq> js ''base64''"
proof -
  obtain k v where kv: "kv = (k, v)" by (cases kv)
  have "cu CHR ''='' \<in> set (compose_parameter kv)"
    unfolding kv compose_parameter_eq by simp
  moreover have "cu CHR ''='' \<notin> set (js ''base64'')"
    by (simp add: js_def cu_def)
  ultimately show ?thesis by metis
qed

lemma split_composed_parameter:
  "split (compose_parameter (k, v)) CHR ''='' = [pct_encode (Str k), pct_encode (Str v)]"
proof -
  have "cu CHR ''='' \<notin> set (pct_encode (Str k))" "cu CHR ''='' \<notin> set (pct_encode (Str v))"
    using pct_encode_chars pct_char_plain(3) by blast+
  then show ?thesis
    by (simp add: split_def compose_parameter_eq split_char_sep split_char_no_sep)
qed

lemma reduce_parameter_composed:
  assumes "well_formed k" "well_formed v"
  shows "reduce_parameter acc (compose_parameter (k, v)) = Inr (add_parameter acc (k, v))"
  using assms
  by (simp add: reduce_parameter_def split_composed_parameter pct_decode_pct_encode
      Buffer_toString_Buffer_from add_parameter_def del: Buffer_from.simps)

lemma reduce_composed:
  "\<forall>kv \<in> set ps. well_formed (fst kv) \<and> well_formed (snd kv) \<Longrightarrow>
   reduce (map compose_parameter ps) acc = Inr (foldl add_parameter acc ps)"
proof (induction ps arbitrary: acc)
  case Nil
  then show ?case by simp
next
  case (Cons kv ps)
  obtain k v where kv: "kv = (k, v)" by (cases kv)
  from Cons.prems have "well_formed k" "well_formed v"
    by (simp_all add: kv)
  then have "reduce_parameter acc (compose_parameter kv) = Inr (add_parameter acc kv)"
    unfolding kv by (rule reduce_parameter_composed)
  with Cons show ?case by simp
qed

lemma set_property_new: "k \<notin> fst ` set acc \<Longrightarrow> set_property acc k v = acc @ [(k, v)]"
  by (induction acc k v rule: set_property.induct) auto

lemma add_parameter_own:
  "k \<notin> set Object_prototype_keys \<Longrightarrow>
   add_parameter acc (k, v) = (if k \<in> fst ` set acc then acc else acc @ [(k, v)])"
  by (simp add: add_parameter_def has_property_def set_property_new)

lemma map_add_upd_dom: "k \<in> dom m2 \<Longrightarrow> m1(k \<mapsto> v) ++ m2 = m1 ++ m2"
  by (auto simp add: map_add_def fun_eq_iff split: option.splits)

lemma foldl_add_parameter:
  "\<forall>kv \<in> set ps. fst kv \<notin> set Object_prototype_keys \<Longrightarrow>
   map_of (foldl add_parameter acc ps) = map_of (acc @ ps)
   \<and> fst ` set (foldl add_parameter acc ps) = fst ` set acc \<union> fst ` set ps"
proof (induction ps arbitrary: acc)
  case Nil
  then show ?case by simp
next
  case (Cons kv ps)
  obtain k v where kv: "kv = (k, v)" by (cases kv)
  from Cons.prems have k: "k \<notin> set Object_prototype_keys"
    and ps: "\<forall>kv \<in> set ps. fst kv \<notin> set Object_prototype_keys"
    by (simp_all add: kv)
  note IH = Cons.IH [OF ps]
  show ?case
  proof (cases "k \<in> fst ` set acc")
    case True
    then have a: "add_parameter acc kv = acc"
      by (simp add: kv add_parameter_own [OF k])
    from True have "k \<in> dom (map_of acc)"
      by (simp add: dom_map_of_conv_image_fst)
    then have "map_of (acc @ kv # ps) = map_of (acc @ ps)"
      by (simp add: kv map_add_upd_dom)
    with IH [of acc] a True show ?thesis
      by (auto simp add: kv)
  next
    case False
    then have a: "add_parameter acc kv = acc @ [kv]"
      by (simp add: kv add_parameter_own [OF k])
    with IH [of "acc @ [kv]"] show ?thesis
      by (auto simp add: kv)
  qed
qed

lemma set_join: "c \<in> set (join ts sep) \<Longrightarrow> c \<in> set sep \<or> (\<exists>t \<in> set ts. c \<in> set t)"
  by (induction ts sep rule: join.induct) auto

lemma base64_encode_chars:
  "c \<in> set (base64_encode arg) \<Longrightarrow> c \<noteq> cu CHR '','' \<and> \<not> line_terminator c"
  using base64_text_chars [of c "Buffer_from arg"] base64_char_plain [of c]
  by (auto simp add: base64_encode_def)

lemma pop_base64_snoc: "pop_base64 (ts @ [js ''base64'']) = (Some True, ts)"
  by (simp add: pop_base64_def)

lemma pop_base64_other: "ts \<noteq> [] \<Longrightarrow> last ts \<noteq> js ''base64'' \<Longrightarrow> pop_base64 ts = (None, ts)"
  by (simp add: pop_base64_def)

lemma base64_token_plain: "c \<in> set (js ''base64'') \<Longrightarrow>
    c \<noteq> cu CHR '','' \<and> c \<noteq> cu CHR '';'' \<and> \<not> line_terminator c"
  by (auto simp add: js_def line_terminator_unat cu_eq_unat unat_cu)

section \<open>The errors of parseSync\<close>

lemma reduce_parameter_error:
  "reduce_parameter acc t = Inl e \<Longrightarrow>
   e = Error ''invalid dataurl parameter'' \<or> e = Error ''malformed data''"
  by (auto simp add: reduce_parameter_def Let_def split: if_splits sum.splits
      dest: pct_decode_error)

lemma reduce_error: "reduce tokens acc = Inl e \<Longrightarrow> \<exists>msg. e = Error msg"
  unfolding reduce_Inl_iff using reduce_parameter_error by blast

lemma split_char_single:
  "split_char sep piece s = [t] \<longleftrightarrow> sep \<notin> set s \<and> t = piece @ s"
proof
  assume a: "split_char sep piece s = [t]"
  then have "length (split_char sep piece s) = 1" by simp
  then have "sep \<notin> set s"
    by (simp add: length_split_char count_list_0_iff)
  with a show "sep \<notin> set s \<and> t = piece @ s"
    by (simp add: split_char_no_sep)
next
  assume "sep \<notin> set s \<and> t = piece @ s"
  then show "split_char sep piece s = [t]"
    by (simp add: split_char_no_sep)
qed

lemma split_char_not_Nil: "split_char sep piece s \<noteq> []"
  using length_split_char [of sep piece s] by auto

lemma mediatype_tokens_Some:
  "dataurl_match s = Some (g1, g2) \<Longrightarrow>
   mediatype_tokens s =
     Some (fst (pop_base64 (split g1 CHR '';'')),
           fst (shift (snd (pop_base64 (split g1 CHR '';'')))),
           snd (shift (snd (pop_base64 (split g1 CHR '';'')))), g2)"
  by (simp add: mediatype_tokens_def Let_def case_prod_beta)

lemma shift_undefined: "fst (shift ts) = None \<longleftrightarrow> ts = []"
  by (cases ts) (simp_all add: shift_def)

lemma pop_base64_empty:
  "ts \<noteq> [] \<Longrightarrow> snd (pop_base64 ts) = [] \<longleftrightarrow> ts = [js ''base64'']"
  by (cases ts rule: rev_cases) (auto simp add: pop_base64_def)

lemma split_is_base64: "split g1 CHR '';'' = [js ''base64''] \<longleftrightarrow> g1 = js ''base64''"
proof -
  have "cu CHR '';'' \<notin> set (js ''base64'')"
    by (simp add: js_def cu_def)
  then show ?thesis
    unfolding split_def split_char_single by auto
qed

lemma mime_token_undefined:
  "mediatype_tokens s = Some (flag, None, tokens, payload) \<longleftrightarrow>
     dataurl_match s = Some (js ''base64'', payload) \<and> flag = Some True \<and> tokens = []"
proof (cases "dataurl_match s")
  case None
  then show ?thesis by (simp add: mediatype_tokens_def)
next
  case (Some g)
  obtain g1 g2 where g: "g = (g1, g2)" by (cases g)
  note mt = mediatype_tokens_Some [OF Some [unfolded g]]
  have ne: "split g1 CHR '';'' \<noteq> []"
    unfolding split_def by (rule split_char_not_Nil)
  show ?thesis
  proof
    assume a: "mediatype_tokens s = Some (flag, None, tokens, payload)"
    with mt have "fst (shift (snd (pop_base64 (split g1 CHR '';'')))) = None"
      and f: "flag = fst (pop_base64 (split g1 CHR '';''))"
      and t: "tokens = snd (shift (snd (pop_base64 (split g1 CHR '';''))))"
      and p: "payload = g2"
      by simp_all
    then have sp: "split g1 CHR '';'' = [js ''base64'']"
      by (simp add: shift_undefined pop_base64_empty [OF ne])
    then have "g1 = js ''base64''"
      by (simp only: split_is_base64)
    moreover from f t have "flag = Some True" "tokens = []"
      unfolding sp by (simp_all add: pop_base64_def shift_def)
    ultimately have "g1 = js ''base64''" "flag = Some True" "tokens = []" .
    with p show "dataurl_match s = Some (js ''base64'', payload) \<and> flag = Some True \<and> tokens = []"
      by (simp add: Some g)
  next
    assume a: "dataurl_match s = Some (js ''base64'', payload) \<and> flag = Some True \<and> tokens = []"
    then have "g1 = js ''base64''" "g2 = payload"
      by (simp_all add: Some g)
    then have "split g1 CHR '';'' = [js ''base64'']"
      by (simp add: split_is_base64)
    with a mt \<open>g2 = payload\<close> show "mediatype_tokens s = Some (flag, None, tokens, payload)"
      by (simp add: pop_base64_def shift_def)
  qed
qed

lemma dropWhile_found:
  assumes "x \<in> set xs"
  obtains ys where "dropWhile (\<lambda>c. c \<noteq> x) xs = x # ys"
proof -
  from assms have "dropWhile (\<lambda>c. c \<noteq> x) xs \<noteq> []"
    by (auto simp add: dropWhile_eq_Nil_conv)
  moreover from this have "hd (dropWhile (\<lambda>c. c \<noteq> x) xs) = x"
    using hd_dropWhile [of "\<lambda>c. c \<noteq> x" xs] by simp
  ultimately have "dropWhile (\<lambda>c. c \<noteq> x) xs = x # tl (dropWhile (\<lambda>c. c \<noteq> x) xs)"
    by (metis list.collapse)
  then show ?thesis by (rule that)
qed

lemma parseSync_TypeError_iff:
  "(\<exists>msg. parseSync s = Inl (TypeError msg))
     \<longleftrightarrow> (\<exists>payload. dataurl_match s = Some (js ''base64'', payload))"
proof (cases "mediatype_tokens s")
  case None
  then have "dataurl_match s = None"
    by (simp add: mediatype_tokens_def Let_def split: option.splits prod.splits)
  with None show ?thesis
    by (simp add: parseSync_None)
next
  case (Some t)
  obtain flag mime_token tokens payload where t: "t = (flag, mime_token, tokens, payload)"
    by (cases t) auto
  note tok = Some [unfolded t]
  show ?thesis
  proof (cases mime_token)
    case None
    with tok have d: "dataurl_match s = Some (js ''base64'', payload)" and "tokens = []"
      by (simp_all add: mime_token_undefined)
    then have "parseSync s
        = Inl (TypeError ''Cannot read properties of undefined (reading length)'')"
      unfolding parseSync_Some [OF tok] by (simp add: None)
    with d show ?thesis by simp
  next
    case (Some m)
    have "\<not> (\<exists>payload. dataurl_match s = Some (js ''base64'', payload))"
    proof
      assume "\<exists>payload. dataurl_match s = Some (js ''base64'', payload)"
      then obtain p where "dataurl_match s = Some (js ''base64'', p)" by blast
      then have "mediatype_tokens s = Some (Some True, None, [], p)"
        using mime_token_undefined [of s "Some True" "[]" p] by simp
      with tok Some show False by simp
    qed
    moreover have "\<not> (\<exists>msg. parseSync s = Inl (TypeError msg))"
    proof (cases "reduce tokens []")
      case (Inl e)
      then obtain msg where "e = Error msg"
        using reduce_error by blast
      with Inl show ?thesis
        unfolding parseSync_Some [OF tok] by simp
    next
      case (Inr params)
      show ?thesis
      proof (cases "(if truthy flag then base64_decode else pct_decode) payload")
        case (Inl e)
        then have "e = Error ''malformed data''"
          using pct_decode_error [of payload e] base64_decode_error [of payload e]
          by (simp split: if_splits)
        with Inl Inr show ?thesis
          unfolding parseSync_Some [OF tok] Some by simp
      next
        case (Inr d)
        with \<open>reduce tokens [] = Inr params\<close> show ?thesis
          unfolding parseSync_Some [OF tok] Some by simp
      qed
    qed
    ultimately show ?thesis by simp
  qed
qed

lemma dataurl_match_iff:
  "dataurl_match s = Some (g1, g2) \<longleftrightarrow>
     s = js ''data:'' @ g1 @ js '','' @ g2 \<and> cu CHR '','' \<notin> set g1
     \<and> \<not> list_ex line_terminator g1 \<and> \<not> list_ex line_terminator g2"
proof
  assume "s = js ''data:'' @ g1 @ js '','' @ g2 \<and> cu CHR '','' \<notin> set g1
     \<and> \<not> list_ex line_terminator g1 \<and> \<not> list_ex line_terminator g2"
  then show "dataurl_match s = Some (g1, g2)"
    by (simp add: dataurl_match_composed)
next
  assume m: "dataurl_match s = Some (g1, g2)"
  define rest where "rest = drop 5 s"
  from m have pre: "take 5 s = js ''data:''" and comma: "cu CHR '','' \<in> set rest"
    and lt: "\<not> list_ex line_terminator rest"
    and g1: "g1 = takeWhile (\<lambda>c. c \<noteq> cu CHR '','') rest"
    and g2: "g2 = drop 1 (dropWhile (\<lambda>c. c \<noteq> cu CHR '','') rest)"
    unfolding dataurl_match_def rest_def Let_def by (simp_all split: if_splits)
  from comma obtain ys where d: "dropWhile (\<lambda>c. c \<noteq> cu CHR '','') rest = cu CHR '','' # ys"
    by (rule dropWhile_found)
  have rest: "rest = g1 @ cu CHR '','' # g2"
    using takeWhile_dropWhile_id [of "\<lambda>c. c \<noteq> cu CHR '',''" rest] d g1 g2 by simp
  have "s = take 5 s @ rest"
    unfolding rest_def by simp
  then have "s = js ''data:'' @ g1 @ js '','' @ g2"
    unfolding pre rest by (simp add: js_def)
  moreover have "cu CHR '','' \<notin> set g1"
    unfolding g1 using set_takeWhileD [of "cu CHR '',''" "\<lambda>c. c \<noteq> cu CHR '',''" rest] by blast
  moreover have "\<not> list_ex line_terminator g1" "\<not> list_ex line_terminator g2"
    using lt unfolding rest by (auto simp add: list_ex_iff)
  ultimately show "s = js ''data:'' @ g1 @ js '','' @ g2 \<and> cu CHR '','' \<notin> set g1
     \<and> \<not> list_ex line_terminator g1 \<and> \<not> list_ex line_terminator g2"
    by simp
qed

lemma parseSync_error_kinds:
  "parseSync s = Inl e \<Longrightarrow>
     (\<exists>msg. e = Error msg) \<or>
     (\<exists>payload. s = js ''data:base64,'' @ payload \<and> \<not> list_ex line_terminator payload)"
proof (cases e)
  case (Error msg)
  then show ?thesis by simp
next
  case (TypeError msg)
  assume "parseSync s = Inl e"
  with TypeError obtain payload where "dataurl_match s = Some (js ''base64'', payload)"
    using parseSync_TypeError_iff [of s] by blast
  then have "s = js ''data:'' @ js ''base64'' @ js '','' @ payload"
    "\<not> list_ex line_terminator payload"
    by (simp_all add: dataurl_match_iff)
  then show ?thesis by (simp add: js_def)
qed

section \<open>Records that composeSync and parseSync do not return unchanged\<close>

lemma parse_compose_mime_comma:
  "composeSync \<lparr>base64 = Some False, mime = Some (js ''a,b''), parameters = [],
                 data = Buffer []\<rparr> = Inr (js ''data:a,b,'')
   \<and> parseSync (js ''data:a,b,'') = Inl (Error ''malformed data'')"
  by (intro conjI; code_simp)

lemma parse_compose_mime_base64:
  "composeSync \<lparr>base64 = Some False, mime = Some (js ''base64''), parameters = [],
                 data = Buffer []\<rparr> = Inr (js ''data:base64,'')"
  by code_simp

lemma parse_compose_inherited_key:
  "composeSync \<lparr>base64 = Some False, mime = Some (js ''a/b''),
                 parameters = [(js ''toString'', js ''1'')], data = Buffer []\<rparr>
     = Inr (js ''data:a/b;toString=1,'')
   \<and> parseSync (js ''data:a/b;toString=1,'')
     = Inr \<lparr>base64 = None, mime = Some (js ''a/b''), parameters = [], data = Buffer []\<rparr>"
  by (intro conjI; code_simp)

lemma lone_surrogate_replaced: "Buffer_toString (Buffer_from (Str [0xD800])) = [0xFFFD]"
proof -
  have "utf8_encode [0xD800] = [0xEF, 0xBF, 0xBD]"
    by (simp add: utf8_of_unit_def high_surrogate_def)
  moreover have "utf8_decode [0xEF, 0xBF, 0xBD] = [0xFFFD]"
    by (simp add: second_byte_def continuation_def units_of_code_point_def)
  ultimately show ?thesis
    by (simp add: Buffer_toString_def)
qed

section \<open>The parameters parseSync builds\<close>

lemma reduce_parameter_decoded:
  "reduce_parameter params token =
     (if count_list token (cu CHR ''='') \<noteq> 1 then Inl (Error ''invalid dataurl parameter'')
      else
        case decoded_parameter token of
          None \<Rightarrow> Inl (Error ''malformed data'')
        | Some kv \<Rightarrow> Inr (add_parameter params kv))"
proof (cases "count_list token (cu CHR ''='') = 1")
  case False
  then show ?thesis
    by (simp add: reduce_parameter_def split_def length_split_char Let_def)
next
  case True
  then obtain a v where t: "token = a @ cu CHR ''='' # v"
    and a: "cu CHR ''='' \<notin> set a" and v: "cu CHR ''='' \<notin> set v"
    and s: "split_char (cu CHR ''='') [] token = [a, v]"
    by (rule split_char_two)
  have at: "attribute_text token = a"
    unfolding attribute_text_def t using a by (rule takeWhile_until)
  have vt: "value_text token = v"
    unfolding value_text_def t by (simp add: dropWhile_until [OF a])
  have r: "reduce_parameter params token =
      (case pct_decode a of
         Inl e \<Rightarrow> Inl e
       | Inr ab \<Rightarrow>
           (case pct_decode v of
              Inl e \<Rightarrow> Inl e
            | Inr vb \<Rightarrow> Inr (add_parameter params (Buffer_toString ab, Buffer_toString vb))))"
    by (simp add: reduce_parameter_def split_def s Let_def add_parameter_def
        split: sum.splits)
  have d: "decoded_parameter token =
      (case (pct_decode a, pct_decode v) of
         (Inr ab, Inr vb) \<Rightarrow> Some (Buffer_toString ab, Buffer_toString vb)
       | _ \<Rightarrow> None)"
    by (simp add: decoded_parameter_def True at vt)
  show ?thesis
    unfolding r d using True
    by (auto split: sum.splits dest: pct_decode_error)
qed

lemma decoded_parameter_count:
  "decoded_parameter token = Some kv \<Longrightarrow> count_list token (cu CHR ''='') = 1"
  by (simp add: decoded_parameter_def split: if_splits)

lemma reduce_parameter_Inr_iff:
  "reduce_parameter params token = Inr params' \<longleftrightarrow>
     (\<exists>kv. decoded_parameter token = Some kv \<and> params' = add_parameter params kv)"
  unfolding reduce_parameter_decoded
  by (auto split: option.splits dest: decoded_parameter_count)

lemma reduce_Inr_iff:
  "reduce tokens acc = Inr params \<longleftrightarrow>
     (\<exists>pairs. map decoded_parameter tokens = map Some pairs
        \<and> params = foldl add_parameter acc pairs)"
proof (induction tokens arbitrary: acc)
  case Nil
  then show ?case by auto
next
  case (Cons t ts)
  show ?case
  proof (cases "reduce_parameter acc t")
    case (Inl e)
    then have "decoded_parameter t = None"
      using reduce_parameter_Inr_iff [of acc t] by (cases "decoded_parameter t") auto
    with Inl show ?thesis by auto
  next
    case (Inr acc1)
    then obtain kv where kv: "decoded_parameter t = Some kv" "acc1 = add_parameter acc kv"
      using reduce_parameter_Inr_iff [of acc t acc1] by blast
    have "(\<exists>pairs. map decoded_parameter (t # ts) = map Some pairs
        \<and> params = foldl add_parameter acc pairs)
      \<longleftrightarrow> (\<exists>pairs. map decoded_parameter ts = map Some pairs
        \<and> params = foldl add_parameter acc1 pairs)"
    proof
      assume "\<exists>pairs. map decoded_parameter (t # ts) = map Some pairs
        \<and> params = foldl add_parameter acc pairs"
      then obtain pairs where p: "map decoded_parameter (t # ts) = map Some pairs"
        "params = foldl add_parameter acc pairs"
        by blast
      then obtain p0 ps where ps: "pairs = p0 # ps"
        by (cases pairs) auto
      with p kv have "map decoded_parameter ts = map Some ps
        \<and> params = foldl add_parameter acc1 ps"
        by simp
      then show "\<exists>pairs. map decoded_parameter ts = map Some pairs
        \<and> params = foldl add_parameter acc1 pairs"
        by blast
    next
      assume "\<exists>pairs. map decoded_parameter ts = map Some pairs
        \<and> params = foldl add_parameter acc1 pairs"
      then obtain ps where "map decoded_parameter ts = map Some ps"
        "params = foldl add_parameter acc1 ps"
        by blast
      with kv have "map decoded_parameter (t # ts) = map Some (kv # ps)
        \<and> params = foldl add_parameter acc (kv # ps)"
        by simp
      then show "\<exists>pairs. map decoded_parameter (t # ts) = map Some pairs
        \<and> params = foldl add_parameter acc pairs"
        by blast
    qed
    with Inr Cons.IH [of acc1] show ?thesis by simp
  qed
qed

lemma map_Some_iff: "(\<exists>ys. map f xs = map Some ys) \<longleftrightarrow> (\<forall>x \<in> set xs. f x \<noteq> None)"
proof (induction xs)
  case Nil
  then show ?case by simp
next
  case (Cons x xs)
  show ?case
  proof
    assume "\<exists>ys. map f (x # xs) = map Some ys"
    then obtain ys where ys: "map f (x # xs) = map Some ys" by blast
    then obtain y ys' where "ys = y # ys'" by (cases ys) auto
    with ys have "f x = Some y" "map f xs = map Some ys'" by simp_all
    with Cons.IH show "\<forall>x \<in> set (x # xs). f x \<noteq> None" by auto
  next
    assume a: "\<forall>x \<in> set (x # xs). f x \<noteq> None"
    then obtain y where y: "f x = Some y" by auto
    from a Cons.IH obtain ys where "map f xs = map Some ys" by auto
    with y have "map f (x # xs) = map Some (y # ys)" by simp
    then show "\<exists>ys. map f (x # xs) = map Some ys" by blast
  qed
qed

lemma all_take_nth:
  "i \<le> length xs \<Longrightarrow> (\<forall>x \<in> set (take i xs). P x) \<longleftrightarrow> (\<forall>j<i. P (xs ! j))"
  by (simp add: all_set_conv_all_nth)

lemma reduce_take_accepted:
  assumes "i < length tokens"
  shows "(\<exists>acc'. reduce (take i tokens) acc = Inr acc')
           \<longleftrightarrow> (\<forall>j<i. decoded_parameter (tokens ! j) \<noteq> None)"
proof -
  have "(\<exists>acc'. reduce (take i tokens) acc = Inr acc')
      \<longleftrightarrow> (\<exists>pairs. map decoded_parameter (take i tokens) = map Some pairs)"
    unfolding reduce_Inr_iff by blast
  also have "\<dots> \<longleftrightarrow> (\<forall>t \<in> set (take i tokens). decoded_parameter t \<noteq> None)"
    by (rule map_Some_iff)
  also have "\<dots> \<longleftrightarrow> (\<forall>j<i. decoded_parameter (tokens ! j) \<noteq> None)"
    using assms by (intro all_take_nth) simp
  finally show ?thesis .
qed

lemma reduce_invalid_iff:
  "reduce tokens acc = Inl (Error ''invalid dataurl parameter'') \<longleftrightarrow>
     (\<exists>i<length tokens. (\<forall>j<i. decoded_parameter (tokens ! j) \<noteq> None)
        \<and> count_list (tokens ! i) (cu CHR ''='') \<noteq> 1)"
  unfolding reduce_Inl_iff reduce_parameter_invalid
  using reduce_take_accepted [of _ tokens acc] by blast

section \<open>Claims\<close>

text \<open>
  C1, as the code has it. Let \<open>r\<close> be a record whose payload is a Buffer and whose mime is a
  string without comma, semicolon and line terminator, such that the mime is non-empty or
  the parameters are non-empty and have no key \<open>charset\<close>; the mime is not \<open>base64\<close> when
  the flag is unset and there are no parameters; no parameter key is a property name of
  \<open>Object.prototype\<close>; and every parameter key and value is well-formed UTF-16. Then parsing
  the composed text succeeds and returns \<open>r\<close> in the truth value of its base64 flag, its
  mime, its parameter mapping and its payload bytes.
\<close>

theorem C1_parse_compose:
  assumes buf: "data r = Buffer b"
    and mime: "mime r = Some m"
    and plain: "\<forall>c \<in> set m. c \<noteq> cu CHR '','' \<and> c \<noteq> cu CHR '';'' \<and> \<not> line_terminator c"
    and nodefault: "m \<noteq> [] \<or> (parameters r \<noteq> [] \<and> js ''charset'' \<notin> fst ` set (parameters r))"
    and noflag: "truthy (base64 r) \<or> parameters r \<noteq> [] \<or> m \<noteq> js ''base64''"
    and params: "\<forall>kv \<in> set (parameters r).
       fst kv \<notin> set Object_prototype_keys \<and> well_formed (fst kv) \<and> well_formed (snd kv)"
  shows "\<exists>text r'. composeSync r = Inr text \<and> parseSync text = Inr r'
           \<and> truthy (base64 r') = truthy (base64 r) \<and> mime r' = mime r
           \<and> map_of (parameters r') = map_of (parameters r) \<and> data r' = data r"
proof -
  define ps where "ps = parameters r"
  define tokens where "tokens = m # map compose_parameter ps"
  define flag where "flag = (if truthy (base64 r) then Some True else None)"
  define all_tokens where
    "all_tokens = tokens @ (if truthy (base64 r) then [js ''base64''] else [])"
  define g1 where "g1 = join all_tokens (js '';'')"
  define g2 where
    "g2 = (if truthy (base64 r) then base64_encode (Buf b) else pct_encode (Buf b))"
  define ps' where "ps' = foldl add_parameter [] ps"
  define url where "url = js ''data:'' @ g1 @ js '','' @ g2"
  have sep: "js '';'' = [cu CHR '';'']"
    by (simp add: js_def)

  have "tokens \<noteq> []"
    unfolding tokens_def by simp
  then have "join (tokens @ [js ''base64'']) (js '';'') = join tokens (js '';'') @ js '';base64''"
    by (simp add: join_snoc js_def)
  then have g1: "g1 = join tokens (js '';'') @ (if truthy (base64 r) then js '';base64'' else [])"
    unfolding g1_def all_tokens_def by simp
  have composed: "composeSync r = Inr url"
    unfolding url_def g1 g2_def tokens_def ps_def
    by (simp add: composeSync_def buf mime Let_def)

  have token_plain: "c \<noteq> cu CHR '','' \<and> c \<noteq> cu CHR '';'' \<and> \<not> line_terminator c"
    if "t \<in> set all_tokens" "c \<in> set t" for t c
  proof -
    from that(1) consider "t = m" | "t \<in> compose_parameter ` set ps" | "t = js ''base64''"
      unfolding all_tokens_def tokens_def by (auto split: if_splits)
    then show ?thesis
    proof cases
      case 1
      with plain that(2) show ?thesis by blast
    next
      case 2
      with that(2) show ?thesis using compose_parameter_chars by blast
    next
      case 3
      with that(2) show ?thesis using base64_token_plain by blast
    qed
  qed
  have g1_plain: "c \<noteq> cu CHR '','' \<and> \<not> line_terminator c" if "c \<in> set g1" for c
  proof -
    from that have "c = cu CHR '';'' \<or> (\<exists>t \<in> set all_tokens. c \<in> set t)"
      unfolding g1_def using set_join [of c all_tokens "js '';''"] by (simp add: sep)
    then show ?thesis
    proof
      assume "c = cu CHR '';''"
      then show ?thesis by (simp add: line_terminator_unat cu_eq_unat unat_cu)
    next
      assume "\<exists>t \<in> set all_tokens. c \<in> set t"
      then show ?thesis using token_plain by blast
    qed
  qed
  have g2_plain: "\<not> line_terminator c" if "c \<in> set g2" for c
    using that base64_encode_chars [of c "Buf b"] pct_encode_chars [of c "Buf b"]
      pct_char_plain(4) [of c]
    unfolding g2_def by (auto split: if_splits)

  have "dataurl_match url = Some (g1, g2)"
    unfolding url_def using g1_plain g2_plain
    by (intro dataurl_match_composed) (auto simp add: list_ex_iff)
  moreover have "split g1 CHR '';'' = all_tokens"
  proof -
    obtain ts where ts: "all_tokens = m # ts"
      unfolding all_tokens_def tokens_def by simp
    have "\<forall>t \<in> set (m # ts). cu CHR '';'' \<notin> set t"
      using token_plain unfolding ts by blast
    then show ?thesis
      unfolding split_def g1_def ts sep by (simp add: split_char_join)
  qed
  moreover have "pop_base64 all_tokens = (flag, tokens)"
  proof (cases "truthy (base64 r)")
    case True
    then show ?thesis
      unfolding all_tokens_def flag_def by (simp add: pop_base64_snoc)
  next
    case False
    have "last tokens \<noteq> js ''base64''"
    proof (cases "ps = []")
      case True
      with noflag False show ?thesis
        unfolding tokens_def ps_def by simp
    next
      case False
      then have "last tokens = compose_parameter (last ps)"
        unfolding tokens_def by (simp add: last_map)
      then show ?thesis
        by (simp add: compose_parameter_not_base64)
    qed
    with False show ?thesis
      unfolding all_tokens_def flag_def by (simp add: pop_base64_other tokens_def)
  qed
  moreover have "shift tokens = (Some m, map compose_parameter ps)"
    unfolding tokens_def shift_def by simp
  ultimately have extracted:
    "mediatype_tokens url = Some (flag, Some m, map compose_parameter ps, g2)"
    by (simp add: mediatype_tokens_def)

  have reduced: "reduce (map compose_parameter ps) [] = Inr ps'"
    unfolding ps'_def using params by (intro reduce_composed) (simp add: ps_def)
  have own: "map_of ps' = map_of ps" "fst ` set ps' = fst ` set ps"
    using foldl_add_parameter [of ps "[]"] params unfolding ps'_def ps_def by simp_all
  have "ps' = [] \<longleftrightarrow> ps = []"
    using own(2) by (metis image_is_empty set_empty)
  with nodefault own(2) have default: "default_mediatype m ps' = (m, ps')"
    unfolding ps_def [symmetric] by (auto simp add: default_mediatype_cases)
  have decoded: "(if truthy flag then base64_decode else pct_decode) g2 = Inr b"
    unfolding flag_def g2_def
    by (simp add: truthy_def pct_decode_pct_encode base64_decode_def base64_encode_def
        length_Buffer_toString_base64 base64_correctly_encoded_encode Buffer_from_base64_def
        decode_sextets_encode)
  have parsed: "parseSync url
      = Inr \<lparr>base64 = flag, mime = Some m, parameters = ps', data = Buffer b\<rparr>"
    unfolding parseSync_Some [OF extracted] reduced by (simp add: default decoded)
  have "truthy flag = truthy (base64 r)"
    unfolding flag_def by (simp add: truthy_def)
  with composed parsed own(1) show ?thesis
    by (simp add: mime buf ps_def)
qed

theorem C1_parse_compose_witness:
  "list_all (\<lambda>c. c \<noteq> cu CHR '','' \<and> c \<noteq> cu CHR '';'' \<and> \<not> line_terminator c) (js ''image/png'')
   \<and> list_all (\<lambda>kv. fst kv \<notin> set Object_prototype_keys \<and> well_formed (fst kv)
                    \<and> well_formed (snd kv)) [(js ''a b'', js ''1;2'')]
   \<and> composeSync \<lparr>base64 = Some True, mime = Some (js ''image/png''),
                    parameters = [(js ''a b'', js ''1;2'')], data = Buffer [0x00, 0xFF]\<rparr>
       = Inr (js ''data:image/png;a%20b=1%3b2;base64,AP8='')
   \<and> (\<exists>r'. parseSync (js ''data:image/png;a%20b=1%3b2;base64,AP8='') = Inr r'
         \<and> truthy (base64 r') \<and> mime r' = Some (js ''image/png'')
         \<and> map_of (parameters r') = map_of [(js ''a b'', js ''1;2'')]
         \<and> data r' = Buffer [0x00, 0xFF])"
proof -
  let ?r = "\<lparr>base64 = Some True, mime = Some (js ''image/png''),
                    parameters = [(js ''a b'', js ''1;2'')], data = Buffer [0x00, 0xFF]\<rparr>"
  have plain: "list_all (\<lambda>c. c \<noteq> cu CHR '','' \<and> c \<noteq> cu CHR '';'' \<and> \<not> line_terminator c)
                 (js ''image/png'')"
    by code_simp
  have params: "list_all (\<lambda>kv. fst kv \<notin> set Object_prototype_keys \<and> well_formed (fst kv)
                    \<and> well_formed (snd kv)) [(js ''a b'', js ''1;2'')]"
    by code_simp
  have composed: "composeSync ?r = Inr (js ''data:image/png;a%20b=1%3b2;base64,AP8='')"
    by code_simp
  have h1: "data ?r = Buffer [0x00, 0xFF]" and h2: "mime ?r = Some (js ''image/png'')"
    by simp_all
  have h3: "\<forall>c \<in> set (js ''image/png'').
              c \<noteq> cu CHR '','' \<and> c \<noteq> cu CHR '';'' \<and> \<not> line_terminator c"
    using plain by (simp only: list_all_iff)
  have h4: "js ''image/png'' \<noteq> [] \<or>
            (parameters ?r \<noteq> [] \<and> js ''charset'' \<notin> fst ` set (parameters ?r))"
    by (simp add: js_def)
  have h5: "truthy (base64 ?r) \<or> parameters ?r \<noteq> [] \<or> js ''image/png'' \<noteq> js ''base64''"
    by (simp add: truthy_def)
  have h6: "\<forall>kv \<in> set (parameters ?r).
       fst kv \<notin> set Object_prototype_keys \<and> well_formed (fst kv) \<and> well_formed (snd kv)"
    using params by (simp only: list_all_iff Info.simps)
  from C1_parse_compose [OF h1 h2 h3 h4 h5 h6] composed plain params
  show ?thesis
    by (auto simp add: truthy_def)
qed

text \<open>
  C1 as stated fails: a record with an empty mime and the parameter \<open>charset = utf-8\<close> is
  composed to \<open>data:;charset=utf-8,x\<close>, which parses to the mime \<open>text/plain\<close>.
\<close>

theorem C1_counterexample:
  "composeSync \<lparr>base64 = Some False, mime = Some (js ''''),
                 parameters = [(js ''charset'', js ''utf-8'')], data = Buffer [0x78]\<rparr>
     = Inr (js ''data:;charset=utf-8,x'')
   \<and> parseSync (js ''data:;charset=utf-8,x'')
     = Inr \<lparr>base64 = None, mime = Some (js ''text/plain''),
            parameters = [(js ''charset'', js ''utf-8'')], data = Buffer [0x78]\<rparr>
   \<and> js ''text/plain'' \<noteq> js ''''"
proof (intro conjI)
  show "composeSync \<lparr>base64 = Some False, mime = Some (js ''''),
                 parameters = [(js ''charset'', js ''utf-8'')], data = Buffer [0x78]\<rparr>
     = Inr (js ''data:;charset=utf-8,x'')"
    by code_simp
  show "parseSync (js ''data:;charset=utf-8,x'')
     = Inr \<lparr>base64 = None, mime = Some (js ''text/plain''),
            parameters = [(js ''charset'', js ''utf-8'')], data = Buffer [0x78]\<rparr>"
    by code_simp
  show "js ''text/plain'' \<noteq> js ''''"
    by (simp add: js_def)
qed

text \<open>
  C2, as the code has it. For every input string on which \<open>parseSync\<close> succeeds, the mime
  field of the returned record is a string, and it is non-empty unless the returned
  parameter mapping is non-empty and has no key \<open>charset\<close>: an omitted media type with
  other parameters only gets no default.
\<close>

theorem C2_mime_after_parse:
  assumes "parseSync s = Inr r"
  shows "\<exists>m. mime r = Some m \<and>
           (m \<noteq> [] \<or> (parameters r \<noteq> [] \<and> js ''charset'' \<notin> fst ` set (parameters r)))"
proof -
  from assms obtain flag m tokens payload params d where
    r: "r = \<lparr>base64 = flag, mime = Some (fst (default_mediatype m params)),
          parameters = snd (default_mediatype m params), data = Buffer d\<rparr>"
    by (rule parseSync_Inr)
  show ?thesis
    unfolding r by (simp add: default_mediatype_cases text_plain_not_empty)
qed

theorem C2_mime_after_parse_witness:
  "parseSync (js ''data:;charset=utf-8,abc'')
     = Inr \<lparr>base64 = None, mime = Some (js ''text/plain''),
            parameters = [(js ''charset'', js ''utf-8'')], data = Buffer [0x61, 0x62, 0x63]\<rparr>
   \<and> (\<exists>m. mime \<lparr>base64 = None, mime = Some (js ''text/plain''),
            parameters = [(js ''charset'', js ''utf-8'')], data = Buffer [0x61, 0x62, 0x63]\<rparr>
              = Some m \<and> m \<noteq> [])"
proof -
  have p: "parseSync (js ''data:;charset=utf-8,abc'')
     = Inr \<lparr>base64 = None, mime = Some (js ''text/plain''),
            parameters = [(js ''charset'', js ''utf-8'')], data = Buffer [0x61, 0x62, 0x63]\<rparr>"
    by code_simp
  from C2_mime_after_parse [OF p] p show ?thesis
    by (simp add: js_def)
qed

text \<open>
  C2 as stated fails: \<open>data:;a=b,x\<close> parses, and the mime of the result is the empty
  string.
\<close>

theorem C2_counterexample:
  "parseSync (js ''data:;a=b,x'')
     = Inr \<lparr>base64 = None, mime = Some [], parameters = [(js ''a'', js ''b'')],
            data = Buffer [0x78]\<rparr>"
  by code_simp

text \<open>
  C3. \<open>parseSync\<close> should raise nothing but the grammar errors it creates with
  \<open>new Error\<close>. On \<open>data:base64,\<close> the only element of \<open>mediatype\<close> is popped as the flag,
  \<open>shift\<close> returns \<open>undefined\<close>, and reading \<open>info.mime.length\<close> raises a TypeError.
\<close>

theorem C3_parseSync_TypeError:
  "parseSync (js ''data:base64,'')
     = Inl (TypeError ''Cannot read properties of undefined (reading length)'')"
  by code_simp

text \<open>
  C4. For every byte sequence \<open>b\<close>, percent-decoding the percent-encoding of \<open>b\<close> returns
  exactly \<open>b\<close>: the text \<open>pct_encode\<close> writes passes the validation of \<open>pct_decode\<close>, and
  decoding gives back every byte.
\<close>

theorem C4_pct_roundtrip: "pct_decode (pct_encode (Buf b)) = Inr b"
  by (simp add: pct_decode_pct_encode)

theorem C4_pct_roundtrip_witness:
  "pct_encode (Buf [0x41, 0x20, 0x01, 0xFF, 0x7E]) = js ''A%20%01%ff~''
   \<and> pct_decode (js ''A%20%01%ff~'') = Inr [0x41, 0x20, 0x01, 0xFF, 0x7E]"
proof -
  have e: "pct_encode (Buf [0x41, 0x20, 0x01, 0xFF, 0x7E]) = js ''A%20%01%ff~''"
    by code_simp
  from C4_pct_roundtrip [of "[0x41, 0x20, 0x01, 0xFF, 0x7E]"] e show ?thesis
    by simp
qed

text \<open>
  C5. For every byte sequence \<open>b\<close>, base64-decoding the base64-encoding of \<open>b\<close> returns
  exactly \<open>b\<close>: the text \<open>base64_encode\<close> writes has a length that is a multiple of four
  and passes the alphabet and padding validation of \<open>base64_decode\<close>, and decoding gives
  back every byte.
\<close>

theorem C5_base64_roundtrip: "base64_decode (base64_encode (Buf b)) = Inr b"
  using decode_sextets_encode [of b]
  by (simp add: base64_decode_def base64_encode_def length_Buffer_toString_base64
      base64_correctly_encoded_encode Buffer_from_base64_def)

theorem C5_base64_roundtrip_witness:
  "base64_encode (Buf [0x68, 0x65, 0x6C, 0x6C, 0x6F]) = js ''aGVsbG8=''
   \<and> base64_decode (js ''aGVsbG8='') = Inr [0x68, 0x65, 0x6C, 0x6C, 0x6F]"
proof -
  have e: "base64_encode (Buf [0x68, 0x65, 0x6C, 0x6C, 0x6F]) = js ''aGVsbG8=''"
    by code_simp
  from C5_base64_roundtrip [of "[0x68, 0x65, 0x6C, 0x6C, 0x6F]"] e show ?thesis
    by simp
qed

text \<open>
  C6. For every input string \<open>s\<close>, \<open>pct_decode\<close> raises the error \<open>malformed data\<close> if and only
  if \<open>s\<close> is not, as a whole, a sequence of unreserved characters and \<open>%XX\<close> triplets, and it
  raises nothing else. When \<open>s\<close> is such a sequence, the result is the byte of each item in
  the order of the items: the ASCII code of an unreserved character, the value \<open>XX\<close> of a
  triplet. A failure returns no bytes.
\<close>

theorem C6_pct_decode_strict:
  "(pct_decode s = Inl (Error ''malformed data'')
      \<longleftrightarrow> \<not> (\<exists>items. list_all pct_item items \<and> s = concat items))
   \<and> ((\<exists>e. pct_decode s = Inl e) \<longleftrightarrow> \<not> (\<exists>items. list_all pct_item items \<and> s = concat items))
   \<and> (\<forall>items. list_all pct_item items \<and> s = concat items
         \<longrightarrow> pct_decode s = Inr (map pct_item_byte items))"
proof (intro conjI allI impI)
  show "pct_decode s = Inl (Error ''malformed data'')
      \<longleftrightarrow> \<not> (\<exists>items. list_all pct_item items \<and> s = concat items)"
    unfolding pct_correctly_encoded_iff [symmetric] by (simp add: pct_decode_def)
  show "(\<exists>e. pct_decode s = Inl e) \<longleftrightarrow> \<not> (\<exists>items. list_all pct_item items \<and> s = concat items)"
    unfolding pct_correctly_encoded_iff [symmetric] by (simp add: pct_decode_def)
  fix items
  assume "list_all pct_item items \<and> s = concat items"
  then show "pct_decode s = Inr (map pct_item_byte items)"
    by (simp add: pct_decode_items)
qed

theorem C6_pct_decode_strict_witness:
  "list_all pct_item [js ''a'', js ''%20'', js ''%4A'', js ''%4a'', js ''~'']
   \<and> js ''a%20%4A%4a~'' = concat [js ''a'', js ''%20'', js ''%4A'', js ''%4a'', js ''~'']
   \<and> pct_decode (js ''a%20%4A%4a~'') = Inr [0x61, 0x20, 0x4A, 0x4A, 0x7E]
   \<and> pct_decode (js ''not%2'') = Inl (Error ''malformed data'')
   \<and> \<not> (\<exists>items. list_all pct_item items \<and> js ''not%2'' = concat items)"
proof -
  have 1: "list_all pct_item [js ''a'', js ''%20'', js ''%4A'', js ''%4a'', js ''~'']"
    by code_simp
  have 2: "js ''a%20%4A%4a~'' = concat [js ''a'', js ''%20'', js ''%4A'', js ''%4a'', js ''~'']"
    by (simp add: js_def)
  have 3: "map pct_item_byte [js ''a'', js ''%20'', js ''%4A'', js ''%4a'', js ''~'']
            = [0x61, 0x20, 0x4A, 0x4A, 0x7E]"
    by code_simp
  have 4: "pct_decode (js ''not%2'') = Inl (Error ''malformed data'')"
    by code_simp
  from 1 2 3 4 C6_pct_decode_strict [of "js ''a%20%4A%4a~''"] C6_pct_decode_strict [of "js ''not%2''"]
  show ?thesis by metis
qed

text \<open>
  C7. For every input string \<open>s\<close>, \<open>base64_decode\<close> raises the error \<open>malformed data\<close> if and
  only if the length of \<open>s\<close> is not a multiple of four or \<open>s\<close> is not a run of characters of
  the standard alphabet followed by at most two \<open>=\<close>; it raises nothing else, and
  \<open>base64_decode("abc")\<close> fails.
\<close>

theorem C7_base64_decode_rejects:
  "(base64_decode s = Inl (Error ''malformed data'')
      \<longleftrightarrow> (length s mod 4 \<noteq> 0 \<or> \<not> base64_pattern s))
   \<and> ((\<exists>e. base64_decode s = Inl e) \<longleftrightarrow> (length s mod 4 \<noteq> 0 \<or> \<not> base64_pattern s))
   \<and> base64_decode (js ''abc'') = Inl (Error ''malformed data'')"
proof (intro conjI)
  show "base64_decode s = Inl (Error ''malformed data'')
      \<longleftrightarrow> (length s mod 4 \<noteq> 0 \<or> \<not> base64_pattern s)"
    by (simp add: base64_decode_def base64_correctly_encoded_iff)
  show "(\<exists>e. base64_decode s = Inl e) \<longleftrightarrow> (length s mod 4 \<noteq> 0 \<or> \<not> base64_pattern s)"
    by (simp add: base64_decode_def base64_correctly_encoded_iff)
  show "base64_decode (js ''abc'') = Inl (Error ''malformed data'')"
    by (simp add: base64_decode_def js_def)
qed

theorem C7_base64_decode_rejects_witness:
  "base64_decode (js ''aGV=bA=='') = Inl (Error ''malformed data'')
   \<and> length (js ''aGV=bA=='') mod 4 = 0 \<and> \<not> base64_pattern (js ''aGV=bA=='')
   \<and> base64_decode (js ''aGVsbA=='') = Inr [0x68, 0x65, 0x6C, 0x6C]
   \<and> length (js ''aGVsbA=='') mod 4 = 0 \<and> base64_pattern (js ''aGVsbA=='')"
proof -
  have 1: "base64_decode (js ''aGV=bA=='') = Inl (Error ''malformed data'')"
    by code_simp
  have 2: "base64_decode (js ''aGVsbA=='') = Inr [0x68, 0x65, 0x6C, 0x6C]"
    by code_simp
  have 3: "length (js ''aGV=bA=='') mod 4 = 0" "length (js ''aGVsbA=='') mod 4 = 0"
    by (simp_all add: js_def)
  from 1 2 3 C7_base64_decode_rejects [of "js ''aGV=bA==''"]
    C7_base64_decode_rejects [of "js ''aGVsbA==''"]
  show ?thesis by simp
qed

text \<open>
  C8. For every successful parse in which the extracted mime token is empty: if the
  parameter mapping built from the tokens is empty, the result has mime \<open>text/plain\<close> and
  the one parameter \<open>charset = US-ASCII\<close>; if the mapping is not empty and has the key
  \<open>charset\<close>, the result has mime \<open>text/plain\<close> and the mapping unchanged. In particular
  \<open>data:,hello\<close> gives mime \<open>text/plain\<close>, \<open>charset = US-ASCII\<close> and the bytes of \<open>hello\<close>.
\<close>

theorem C8_defaulting:
  "(mediatype_tokens s = Some (flag, Some [], tokens, payload) \<and> reduce tokens [] = Inr params
      \<and> parseSync s = Inr r \<longrightarrow>
      (params = [] \<longrightarrow>
         mime r = Some (js ''text/plain'') \<and> parameters r = [(js ''charset'', js ''US-ASCII'')]) \<and>
      (params \<noteq> [] \<and> js ''charset'' \<in> fst ` set params \<longrightarrow>
         mime r = Some (js ''text/plain'') \<and> parameters r = params))
   \<and> parseSync (js ''data:,hello'')
       = Inr \<lparr>base64 = None, mime = Some (js ''text/plain''),
              parameters = [(js ''charset'', js ''US-ASCII'')],
              data = Buffer [0x68, 0x65, 0x6C, 0x6C, 0x6F]\<rparr>"
proof (intro conjI impI; (elim conjE)?)
  show "parseSync (js ''data:,hello'')
       = Inr \<lparr>base64 = None, mime = Some (js ''text/plain''),
              parameters = [(js ''charset'', js ''US-ASCII'')],
              data = Buffer [0x68, 0x65, 0x6C, 0x6C, 0x6F]\<rparr>"
    by code_simp
next
  assume t: "mediatype_tokens s = Some (flag, Some [], tokens, payload)"
    and p: "reduce tokens [] = Inr params" and r: "parseSync s = Inr r"
  from r obtain d where r': "r = \<lparr>base64 = flag, mime = Some (fst (default_mediatype [] params)),
           parameters = snd (default_mediatype [] params), data = Buffer d\<rparr>"
    unfolding parseSync_Some [OF t] p by (auto split: sum.splits)
  {
    assume "params = []"
    with r' show "mime r = Some (js ''text/plain'')"
      by (simp add: default_mediatype_cases)
    from \<open>params = []\<close> r' show "parameters r = [(js ''charset'', js ''US-ASCII'')]"
      by (simp add: default_mediatype_cases)
  }
  {
    assume c: "params \<noteq> []" "js ''charset'' \<in> fst ` set params"
    with r' show "mime r = Some (js ''text/plain'')"
      by (simp add: default_mediatype_cases)
    from c r' show "parameters r = params"
      by (simp add: default_mediatype_cases)
  }
qed

theorem C8_defaulting_witness:
  "mediatype_tokens (js ''data:;charset=utf-8,abc'')
     = Some (None, Some [], [js ''charset=utf-8''], js ''abc'')
   \<and> reduce [js ''charset=utf-8''] [] = Inr [(js ''charset'', js ''utf-8'')]
   \<and> parseSync (js ''data:;charset=utf-8,abc'')
     = Inr \<lparr>base64 = None, mime = Some (js ''text/plain''),
            parameters = [(js ''charset'', js ''utf-8'')], data = Buffer [0x61, 0x62, 0x63]\<rparr>
   \<and> js ''charset'' \<in> fst ` set [(js ''charset'', js ''utf-8'')]
   \<and> mime \<lparr>base64 = None, mime = Some (js ''text/plain''),
            parameters = [(js ''charset'', js ''utf-8'')], data = Buffer [0x61, 0x62, 0x63]\<rparr>
       = Some (js ''text/plain'')"
proof -
  have t: "mediatype_tokens (js ''data:;charset=utf-8,abc'')
     = Some (None, Some [], [js ''charset=utf-8''], js ''abc'')"
    by code_simp
  have p: "reduce [js ''charset=utf-8''] [] = Inr [(js ''charset'', js ''utf-8'')]"
    by code_simp
  have r: "parseSync (js ''data:;charset=utf-8,abc'')
     = Inr \<lparr>base64 = None, mime = Some (js ''text/plain''),
            parameters = [(js ''charset'', js ''utf-8'')], data = Buffer [0x61, 0x62, 0x63]\<rparr>"
    by code_simp
  have c: "js ''charset'' \<in> fst ` set [(js ''charset'', js ''utf-8'')]"
    by simp
  from C8_defaulting [of "js ''data:;charset=utf-8,abc''" None "[js ''charset=utf-8'']"
      "js ''abc''" "[(js ''charset'', js ''utf-8'')]"] t p r c
  show ?thesis by simp
qed

text \<open>
  C9, as the code has it. The function \<open>parseSync\<close> gives to \<open>reduce\<close> raises
  \<open>invalid dataurl parameter\<close> on a parameter token if and only if the token does not contain
  exactly one \<open>=\<close>, and it succeeds if and only if the token has a decoded attribute and
  value (the parts before and after its \<open>=\<close>, each percent-decoded on its own), which it adds
  unless the attribute is already a property of the object. The tokens are processed in
  order, so \<open>parseSync\<close> raises \<open>invalid dataurl parameter\<close> if and only if some parameter
  token (a token of the mediatype segment after the trailing \<open>base64\<close> and the leading mime
  token are removed) does not contain exactly one \<open>=\<close> and every parameter token before it
  has a decoded attribute and value. When \<open>parseSync\<close> succeeds, every parameter token
  contains exactly one \<open>=\<close>, and the mime and the parameters of the result are the defaults
  applied to the mime token and to the object built, in order, from the decoded attribute
  and value of every token.
\<close>

theorem C9_parameter_tokens:
  "(reduce_parameter params token = Inl (Error ''invalid dataurl parameter'')
      \<longleftrightarrow> count_list token (cu CHR ''='') \<noteq> 1)
   \<and> (reduce_parameter params token = Inr params'
      \<longleftrightarrow> (\<exists>kv. decoded_parameter token = Some kv \<and> params' = add_parameter params kv))
   \<and> (parseSync s = Inl (Error ''invalid dataurl parameter'') \<longleftrightarrow>
        (\<exists>flag mime_token tokens payload i.
           mediatype_tokens s = Some (flag, mime_token, tokens, payload)
           \<and> i < length tokens \<and> (\<forall>j<i. decoded_parameter (tokens ! j) \<noteq> None)
           \<and> count_list (tokens ! i) (cu CHR ''='') \<noteq> 1))
   \<and> (\<forall>r flag mime_token tokens payload.
         parseSync s = Inr r \<and> mediatype_tokens s = Some (flag, mime_token, tokens, payload)
         \<longrightarrow> (\<forall>t \<in> set tokens. count_list t (cu CHR ''='') = 1)
           \<and> (\<exists>m pairs. mime_token = Some m
                 \<and> map decoded_parameter tokens = map Some pairs
                 \<and> mime r = Some (fst (default_mediatype m (foldl add_parameter [] pairs)))
                 \<and> parameters r = snd (default_mediatype m (foldl add_parameter [] pairs))))"
proof (intro conjI allI impI; (elim conjE)?)
  show "reduce_parameter params token = Inl (Error ''invalid dataurl parameter'')
      \<longleftrightarrow> count_list token (cu CHR ''='') \<noteq> 1"
    by (rule reduce_parameter_invalid)
next
  show "reduce_parameter params token = Inr params'
      \<longleftrightarrow> (\<exists>kv. decoded_parameter token = Some kv \<and> params' = add_parameter params kv)"
    by (rule reduce_parameter_Inr_iff)
next
  have "(\<exists>flag mime_token tokens payload.
           mediatype_tokens s = Some (flag, mime_token, tokens, payload)
           \<and> (\<exists>i<length tokens. (\<forall>j<i. decoded_parameter (tokens ! j) \<noteq> None)
                \<and> count_list (tokens ! i) (cu CHR ''='') \<noteq> 1))
      \<longleftrightarrow> (\<exists>flag mime_token tokens payload i.
           mediatype_tokens s = Some (flag, mime_token, tokens, payload)
           \<and> i < length tokens \<and> (\<forall>j<i. decoded_parameter (tokens ! j) \<noteq> None)
           \<and> count_list (tokens ! i) (cu CHR ''='') \<noteq> 1)"
    by blast
  then show "parseSync s = Inl (Error ''invalid dataurl parameter'') \<longleftrightarrow>
        (\<exists>flag mime_token tokens payload i.
           mediatype_tokens s = Some (flag, mime_token, tokens, payload)
           \<and> i < length tokens \<and> (\<forall>j<i. decoded_parameter (tokens ! j) \<noteq> None)
           \<and> count_list (tokens ! i) (cu CHR ''='') \<noteq> 1)"
    unfolding parseSync_invalid_parameter_iff reduce_invalid_iff by simp
next
  fix r flag mime_token tokens payload
  assume r: "parseSync s = Inr r"
    and t: "mediatype_tokens s = Some (flag, mime_token, tokens, payload)"
  from r obtain flag' m tokens' payload' params d where
    t': "mediatype_tokens s = Some (flag', Some m, tokens', payload')"
    and red: "reduce tokens' [] = Inr params"
    and r': "r = \<lparr>base64 = flag', mime = Some (fst (default_mediatype m params)),
          parameters = snd (default_mediatype m params), data = Buffer d\<rparr>"
    by (rule parseSync_Inr)
  from t t' have eq: "mime_token = Some m" "tokens' = tokens"
    by simp_all
  from red obtain pairs where pairs: "map decoded_parameter tokens = map Some pairs"
    "params = foldl add_parameter [] pairs"
    unfolding eq reduce_Inr_iff by blast
  have "\<exists>ys. map decoded_parameter tokens = map Some ys"
    using pairs(1) by blast
  then have "\<forall>t \<in> set tokens. decoded_parameter t \<noteq> None"
    by (simp only: map_Some_iff)
  then show "\<forall>t \<in> set tokens. count_list t (cu CHR ''='') = 1"
    using decoded_parameter_count by blast
  from eq pairs r' have "mime_token = Some m
      \<and> map decoded_parameter tokens = map Some pairs
      \<and> mime r = Some (fst (default_mediatype m (foldl add_parameter [] pairs)))
      \<and> parameters r = snd (default_mediatype m (foldl add_parameter [] pairs))"
    by simp
  then show "\<exists>m pairs. mime_token = Some m
      \<and> map decoded_parameter tokens = map Some pairs
      \<and> mime r = Some (fst (default_mediatype m (foldl add_parameter [] pairs)))
      \<and> parameters r = snd (default_mediatype m (foldl add_parameter [] pairs))"
    by blast
qed

theorem C9_parameter_tokens_witness:
  "mediatype_tokens (js ''data:text/plain;a=1;b,x'')
       = Some (None, Some (js ''text/plain''), [js ''a=1'', js ''b''], js ''x'')
   \<and> decoded_parameter (js ''a=1'') = Some (js ''a'', js ''1'')
   \<and> count_list (js ''b'') (cu CHR ''='') = 0
   \<and> parseSync (js ''data:text/plain;a=1;b,x'') = Inl (Error ''invalid dataurl parameter'')
   \<and> mediatype_tokens (js ''data:text/plain;a%20b=1;a%20b=2,x'')
       = Some (None, Some (js ''text/plain''), [js ''a%20b=1'', js ''a%20b=2''], js ''x'')
   \<and> map decoded_parameter [js ''a%20b=1'', js ''a%20b=2'']
       = map Some [(js ''a b'', js ''1''), (js ''a b'', js ''2'')]
   \<and> parseSync (js ''data:text/plain;a%20b=1;a%20b=2,x'')
       = Inr \<lparr>base64 = None, mime = Some (js ''text/plain''),
              parameters = [(js ''a b'', js ''1'')], data = Buffer [0x78]\<rparr>
   \<and> count_list (js ''a%20b=1'') (cu CHR ''='') = 1
   \<and> count_list (js ''a%20b=2'') (cu CHR ''='') = 1"
proof -
  let ?s1 = "js ''data:text/plain;a=1;b,x''"
  let ?s2 = "js ''data:text/plain;a%20b=1;a%20b=2,x''"
  let ?r2 = "\<lparr>base64 = None, mime = Some (js ''text/plain''),
              parameters = [(js ''a b'', js ''1'')], data = Buffer [0x78]\<rparr>"
  have t1: "mediatype_tokens ?s1
       = Some (None, Some (js ''text/plain''), [js ''a=1'', js ''b''], js ''x'')"
    by code_simp
  have d1: "decoded_parameter (js ''a=1'') = Some (js ''a'', js ''1'')"
    by code_simp
  have c1: "count_list (js ''b'') (cu CHR ''='') = 0"
    by (simp add: js_def cu_def)
  have "1 < length [js ''a=1'', js ''b'']
      \<and> (\<forall>j<1. decoded_parameter ([js ''a=1'', js ''b''] ! j) \<noteq> None)
      \<and> count_list ([js ''a=1'', js ''b''] ! 1) (cu CHR ''='') \<noteq> 1"
    using d1 c1 by simp
  with t1 have "\<exists>flag mime_token tokens payload i.
           mediatype_tokens ?s1 = Some (flag, mime_token, tokens, payload)
           \<and> i < length tokens \<and> (\<forall>j<i. decoded_parameter (tokens ! j) \<noteq> None)
           \<and> count_list (tokens ! i) (cu CHR ''='') \<noteq> 1"
    by blast
  then have p1: "parseSync ?s1 = Inl (Error ''invalid dataurl parameter'')"
    using C9_parameter_tokens [where s = ?s1] by blast
  have t2: "mediatype_tokens ?s2
       = Some (None, Some (js ''text/plain''), [js ''a%20b=1'', js ''a%20b=2''], js ''x'')"
    by code_simp
  have d2: "map decoded_parameter [js ''a%20b=1'', js ''a%20b=2'']
       = map Some [(js ''a b'', js ''1''), (js ''a b'', js ''2'')]"
    by code_simp
  have p2: "parseSync ?s2 = Inr ?r2"
    by code_simp
  from C9_parameter_tokens [where s = ?s2] p2 t2
  have "\<forall>t \<in> set [js ''a%20b=1'', js ''a%20b=2'']. count_list t (cu CHR ''='') = 1"
    by blast
  then have c2: "count_list (js ''a%20b=1'') (cu CHR ''='') = 1"
    "count_list (js ''a%20b=2'') (cu CHR ''='') = 1"
    by simp_all
  from t1 d1 c1 p1 t2 d2 p2 c2 show ?thesis
    by (intro conjI)
qed

text \<open>
  C9 as stated fails: in \<open>data:text/plain;%zz=1;b,x\<close> the parameter token \<open>b\<close> contains no
  \<open>=\<close>, but the token \<open>%zz=1\<close> before it is not valid percent-encoded text, and \<open>parseSync\<close>
  raises \<open>malformed data\<close>.
\<close>

theorem C9_counterexample:
  "mediatype_tokens (js ''data:text/plain;%zz=1;b,x'')
       = Some (None, Some (js ''text/plain''), [js ''%zz=1'', js ''b''], js ''x'')
   \<and> count_list (js ''b'') (cu CHR ''='') = 0
   \<and> parseSync (js ''data:text/plain;%zz=1;b,x'') = Inl (Error ''malformed data'')"
proof (intro conjI)
  show "mediatype_tokens (js ''data:text/plain;%zz=1;b,x'')
       = Some (None, Some (js ''text/plain''), [js ''%zz=1'', js ''b''], js ''x'')"
    by code_simp
  show "count_list (js ''b'') (cu CHR ''='') = 0"
    by (simp add: js_def cu_def)
  show "parseSync (js ''data:text/plain;%zz=1;b,x'') = Inl (Error ''malformed data'')"
    by code_simp
qed

text \<open>
  C10. \<open>composeSync\<close> raises a TypeError exactly when the payload field is not a Buffer, and
  raises nothing else; for a record whose payload is a Buffer it returns a string, whatever
  the mime, the parameters and the bytes are. The record with mime \<open>image/png\<close>, no
  parameters, the base64 flag and any bytes gives a string that begins with
  \<open>data:image/png;base64,\<close>.
\<close>

theorem C10_composeSync_total:
  "((\<exists>m. composeSync info = Inl (TypeError m)) \<longleftrightarrow> \<not> isBuffer (data info))
   \<and> ((\<exists>e. composeSync info = Inl e) \<longleftrightarrow> \<not> isBuffer (data info))
   \<and> ((\<exists>text. composeSync info = Inr text) \<longleftrightarrow> isBuffer (data info))
   \<and> composeSync \<lparr>base64 = Some True, mime = Some (js ''image/png''), parameters = [],
                   data = Buffer b\<rparr>
       = Inr (js ''data:image/png;base64,'' @ base64_encode (Buf b))"
proof (intro conjI)
  show "(\<exists>m. composeSync info = Inl (TypeError m)) \<longleftrightarrow> \<not> isBuffer (data info)"
    by (cases "data info") (simp_all add: composeSync_def Let_def split: prod.splits)
  show "(\<exists>e. composeSync info = Inl e) \<longleftrightarrow> \<not> isBuffer (data info)"
    by (cases "data info") (simp_all add: composeSync_def Let_def split: prod.splits)
  show "(\<exists>text. composeSync info = Inr text) \<longleftrightarrow> isBuffer (data info)"
    by (cases "data info") (simp_all add: composeSync_def Let_def split: prod.splits)
  show "composeSync \<lparr>base64 = Some True, mime = Some (js ''image/png''), parameters = [],
                   data = Buffer b\<rparr>
       = Inr (js ''data:image/png;base64,'' @ base64_encode (Buf b))"
    by (simp add: composeSync_def truthy_def js_def)
qed

theorem C10_composeSync_total_witness:
  "composeSync \<lparr>base64 = None, mime = None, parameters = [], data = Undefined\<rparr>
     = Inl (TypeError ''expected info.data to be a Buffer'')
   \<and> \<not> isBuffer (data \<lparr>base64 = None, mime = None, parameters = [], data = Undefined\<rparr>)
   \<and> composeSync \<lparr>base64 = None, mime = Some (js ''text/plain''),
                   parameters = [(js ''a b'', js ''1;2'')], data = Buffer [0x00, 0x2C, 0x41]\<rparr>
     = Inr (js ''data:text/plain;a%20b=1%3b2,%00%2cA'')
   \<and> isBuffer (data \<lparr>base64 = None, mime = Some (js ''text/plain''),
                   parameters = [(js ''a b'', js ''1;2'')], data = Buffer [0x00, 0x2C, 0x41]\<rparr>)"
proof -
  have 1: "composeSync \<lparr>base64 = None, mime = None, parameters = [], data = Undefined\<rparr>
     = Inl (TypeError ''expected info.data to be a Buffer'')"
    by code_simp
  have 2: "composeSync \<lparr>base64 = None, mime = Some (js ''text/plain''),
                   parameters = [(js ''a b'', js ''1;2'')], data = Buffer [0x00, 0x2C, 0x41]\<rparr>
     = Inr (js ''data:text/plain;a%20b=1%3b2,%00%2cA'')"
    by code_simp
  from 1 2
    C10_composeSync_total [of "\<lparr>base64 = None, mime = None, parameters = [], data = Undefined\<rparr>"]
    C10_composeSync_total [of "\<lparr>base64 = None, mime = Some (js ''text/plain''),
                   parameters = [(js ''a b'', js ''1;2'')], data = Buffer [0x00, 0x2C, 0x41]\<rparr>"]
  show ?thesis by simp
qed

end
